theory Spec2Isabelle
  imports Main
begin

section \<open>Machine integers\<close>

text \<open>
  The source works on \<^verbatim>\<open>size_t\<close> (\<^verbatim>\<open>IndexType\<close>, 64 bits, unsigned, wraps
  around) and on \<^verbatim>\<open>int\<close> (32 bits, signed).  An \<^verbatim>\<open>IndexType\<close> value is a
  natural number below \<open>2 ^ 64\<close>; its addition and subtraction are written with the
  wrap-around.  The conversions between the two types are written out as well:
  \<^verbatim>\<open>static_cast<int>\<close> keeps the low 32 bits and reads them in two's complement, and an
  \<^verbatim>\<open>int\<close> operand of a \<^verbatim>\<open>size_t\<close> operation is converted modulo \<open>2 ^ 64\<close>.
  Arithmetic on \<^verbatim>\<open>int\<close> itself (the counter \<^verbatim>\<open>bs_length\<close>, the character values) is
  the mathematical one, signed overflow being undefined in C++.  The general theorems on
  \<open>get_border_strips\<close> carry the bounds under which the counter stays in the range of
  \<^verbatim>\<open>int\<close>; those on \<open>char_value\<close> either say nothing of the size of a character value,
  on which no branch of the code depends, or are about the values 0, 1 and -1.
\<close>

type_synonym IndexType = nat
type_synonym Partition = "IndexType list"

definition uadd :: "IndexType \<Rightarrow> IndexType \<Rightarrow> IndexType" where
  "uadd a b = (a + b) mod 2 ^ 64"

definition usub :: "IndexType \<Rightarrow> IndexType \<Rightarrow> IndexType" where
  "usub a b = (a + (2 ^ 64 - b mod 2 ^ 64)) mod 2 ^ 64"

definition to_int :: "IndexType \<Rightarrow> int" where
  "to_int x = (if x mod 2 ^ 32 < 2 ^ 31 then int (x mod 2 ^ 32) else int (x mod 2 ^ 32) - 2 ^ 32)"

definition to_size :: "int \<Rightarrow> IndexType" where
  "to_size i = nat (i mod 2 ^ 64)"

section \<open>Helpers of the source\<close>

record PartitionWithoutBorderStrip =
  sub_partition :: Partition
  border_strip :: Partition

text \<open>
  The field \<^verbatim>\<open>partition\<close> of the struct is \<open>sub_partition\<close> here, since \<open>partition\<close>
  is a constant of the list library.
\<close>

text \<open>The template \<^verbatim>\<open>Sum\<close>, at the type \<^verbatim>\<open>size_t\<close>.\<close>

definition Sum_vec :: "IndexType list \<Rightarrow> IndexType" where
  "Sum_vec vec = foldl uadd 0 vec"

definition MinusOnePow :: "IndexType \<Rightarrow> int" where
  "MinusOnePow p = (if p mod 2 = 0 then 1 else - 1)"

datatype error = OutOfBounds

section \<open>The class CharTable\<close>

record CharTable =
  character_values :: "Partition \<rightharpoonup> (Partition \<rightharpoonup> int)"
  partitions :: "Partition list list"

definition CharTable_init :: CharTable where
  "CharTable_init = \<lparr>character_values = Map.empty, partitions = [[[]], [[1]]]\<rparr>"

definition correct_partition :: "Partition \<Rightarrow> Partition" where
  "correct_partition lambda = filter (\<lambda>item. item > 0) lambda"

subsection \<open>get_border_strips\<close>

text \<open>The inner loop of the down step: one cell from every row of the run of equal rows.\<close>

function down_run :: "Partition \<Rightarrow> nat \<Rightarrow> nat \<Rightarrow> Partition \<Rightarrow> int \<Rightarrow> Partition \<times> nat \<times> int" where
  "down_run lam prev_row row xi bs_length =
     (if row < length lam \<and> lam ! row = lam ! prev_row
      then down_run lam prev_row (row + 1) (xi[row := uadd (xi ! row) 1]) (bs_length - 1)
      else (xi, row, bs_length))"
  by pat_completeness auto
termination down_run
  by (relation "measure (\<lambda>(lam, prev_row, row, xi, bs_length). length lam - row)") auto

text \<open>The \<^verbatim>\<open>for\<close> loop of the down step: the rows of the run lose their cell.\<close>

function dec_rows :: "Partition \<Rightarrow> nat \<Rightarrow> nat \<Rightarrow> Partition" where
  "dec_rows lam index row =
     (if index < row then dec_rows (lam[index := usub (lam ! index) 1]) (index + 1) row else lam)"
  by pat_completeness auto
termination dec_rows
  by (relation "measure (\<lambda>(lam, index, row). row - index)") auto

text \<open>
  The loop \<^verbatim>\<open>while (bs_length < 0)\<close> of the down step.  It indexes both vectors at
  \<^verbatim>\<open>first_non_zero_row\<close> without a bound check; a read past the end is \<open>OutOfBounds\<close>.
\<close>

function refund :: "Partition \<Rightarrow> Partition \<Rightarrow> nat \<Rightarrow> int \<Rightarrow> error + (Partition \<times> Partition \<times> nat \<times> int)" where
  "refund lam xi first_non_zero_row bs_length =
     (if bs_length < 0 then
        (if first_non_zero_row < length lam then
           refund (lam[first_non_zero_row := uadd (lam ! first_non_zero_row) (xi ! first_non_zero_row)])
                  (xi[first_non_zero_row := 0])
                  (first_non_zero_row + 1)
                  (bs_length + to_int (xi ! first_non_zero_row))
         else Inl OutOfBounds)
      else Inr (lam, xi, first_non_zero_row, bs_length))"
  by pat_completeness auto
termination refund
  by (relation "measure (\<lambda>(lam, xi, first_non_zero_row, bs_length). length lam - first_non_zero_row)") auto

text \<open>
  One pass through the body of the outer \<^verbatim>\<open>while\<close> loop either leaves the function
  (\<open>Stop\<close>: a \<^verbatim>\<open>return\<close>, or a read out of bounds) or goes back to the loop test with
  new values of \<^verbatim>\<open>lambda\<close>, \<^verbatim>\<open>xi\<close>, \<^verbatim>\<open>row\<close>, \<^verbatim>\<open>first_non_zero_row\<close>, \<^verbatim>\<open>bs_length\<close> and
  \<^verbatim>\<open>result\<close>.
\<close>

datatype loop_step =
  Stop "error + PartitionWithoutBorderStrip list"
  | Next Partition Partition nat nat int "PartitionWithoutBorderStrip list"

text \<open>The block \<^verbatim>\<open>if (bs_length == 0) { ... }\<close> that ends the loop body.\<close>

definition emit :: "Partition \<Rightarrow> Partition \<Rightarrow> nat \<Rightarrow> nat \<Rightarrow> int \<Rightarrow> PartitionWithoutBorderStrip list \<Rightarrow> loop_step" where
  "emit lam xi row first_non_zero_row bs_length result =
     (if bs_length = 0 then
        (if first_non_zero_row < length lam then
           Next (lam[first_non_zero_row := uadd (lam ! first_non_zero_row) (xi ! first_non_zero_row)])
                (xi[first_non_zero_row := 0])
                (if row = first_non_zero_row then row + 1 else row)
                (if row = first_non_zero_row then first_non_zero_row + 1 else first_non_zero_row)
                (bs_length + to_int (xi ! first_non_zero_row))
                (result @ [\<lparr>sub_partition = lam, border_strip = xi\<rparr>])
         else Stop (Inl OutOfBounds))
      else Next lam xi row first_non_zero_row bs_length result)"

definition gbs_body :: "Partition \<Rightarrow> Partition \<Rightarrow> nat \<Rightarrow> nat \<Rightarrow> int \<Rightarrow> PartitionWithoutBorderStrip list \<Rightarrow> loop_step" where
  "gbs_body lam xi row first_non_zero_row bs_length result =
     (if row + 1 = length lam then
        (let step = min bs_length (to_int (lam ! row));
             bs_length' = bs_length - step;
             lam' = lam[row := usub (lam ! row) (to_size step)];
             xi' = xi[row := uadd (xi ! row) (to_size step)]
         in if bs_length' > 0 then Stop (Inr result)
            else emit lam' xi' row first_non_zero_row bs_length' result)
      else if lam ! row > lam ! (row + 1) then
        (let step = min bs_length (to_int (usub (lam ! row) (lam ! (row + 1))));
             bs_length' = bs_length - step;
             lam' = lam[row := usub (lam ! row) (to_size step)];
             xi' = xi[row := uadd (xi ! row) (to_size step)]
         in emit lam' xi' row first_non_zero_row bs_length' result)
      else
        (let prev_row = row;
             (xi', row', bs_length') = down_run lam prev_row row xi bs_length;
             lam' = dec_rows lam prev_row row';
             row'' = row' - 1
         in case refund lam' xi' first_non_zero_row bs_length' of
              Inl e \<Rightarrow> Stop (Inl e)
            | Inr (lam'', xi'', first_non_zero_row', bs_length'') \<Rightarrow>
                emit lam'' xi'' row'' first_non_zero_row' bs_length'' result))"

text \<open>
  The outer loop.  Nothing in the source bounds the number of its passes, so it is a
  partial function: \<open>None\<close> is the loop that never ends.
\<close>

partial_function (option) gbs_loop ::
  "Partition \<Rightarrow> Partition \<Rightarrow> nat \<Rightarrow> nat \<Rightarrow> int \<Rightarrow> PartitionWithoutBorderStrip list
    \<Rightarrow> (error + PartitionWithoutBorderStrip list) option" where
  "gbs_loop lam xi row first_non_zero_row bs_length result =
     (if bs_length > 0 \<and> row < length lam then
        (case gbs_body lam xi row first_non_zero_row bs_length result of
           Stop r \<Rightarrow> Some r
         | Next lam' xi' row' first_non_zero_row' bs_length' result' \<Rightarrow>
             gbs_loop lam' xi' row' first_non_zero_row' bs_length' result')
      else Some (Inr result))"

definition get_border_strips :: "Partition \<Rightarrow> int \<Rightarrow> (error + PartitionWithoutBorderStrip list) option" where
  "get_border_strips lambda bs_length = gbs_loop lambda (replicate (length lambda) 0) 0 0 bs_length []"

subsection \<open>calculate_partitions\<close>

text \<open>
  \<^verbatim>\<open>std::sort\<close> over the reverse iterators sorts into non-increasing order, and
  \<^verbatim>\<open>std::unique\<close> with \<^verbatim>\<open>erase\<close> removes every element equal to its predecessor.
  In \<^verbatim>\<open>num - index\<close> the index is below \<open>num\<close>, so the difference does not wrap.
\<close>

definition partitions_of_num :: "Partition list list \<Rightarrow> nat \<Rightarrow> Partition list" where
  "partitions_of_num parts num =
     remdups_adj (concat (map (\<lambda>index. map (\<lambda>partition. rev (sort (partition @ [num - index])))
                                            (parts ! index)) [0..<num]))"

function calc_loop :: "Partition list list \<Rightarrow> nat \<Rightarrow> Partition list list" where
  "calc_loop parts n =
     (if length parts < uadd n 1
      then calc_loop (parts @ [partitions_of_num parts (length parts)]) n
      else parts)"
  by pat_completeness auto
termination calc_loop
  by (relation "measure (\<lambda>(parts, n). uadd n 1 - length parts)") auto

definition calculate_partitions :: "CharTable \<Rightarrow> nat \<Rightarrow> error + (Partition list \<times> CharTable)" where
  "calculate_partitions self n =
     (let parts = calc_loop (partitions self) n
      in if n < length parts then Inr (parts ! n, self\<lparr>partitions := parts\<rparr>)
         else Inl OutOfBounds)"

subsection \<open>char_value\<close>

text \<open>
  \<^verbatim>\<open>character_values[lambda]\<close> inserts an empty inner map for a key that is not there.
\<close>

definition touch :: "CharTable \<Rightarrow> Partition \<Rightarrow> CharTable" where
  "touch self lambda =
     (case character_values self lambda of
        None \<Rightarrow> self\<lparr>character_values := (character_values self)(lambda \<mapsto> Map.empty)\<rparr>
      | Some _ \<Rightarrow> self)"

definition find_value :: "CharTable \<Rightarrow> Partition \<Rightarrow> Partition \<Rightarrow> int option" where
  "find_value self lambda rho =
     (case character_values self lambda of None \<Rightarrow> None | Some inner \<Rightarrow> inner rho)"

definition store :: "CharTable \<Rightarrow> Partition \<Rightarrow> Partition \<Rightarrow> int \<Rightarrow> CharTable" where
  "store self lambda rho v =
     (let self' = touch self lambda
      in self'\<lparr>character_values :=
           (character_values self')(lambda \<mapsto> (the (character_values self' lambda))(rho \<mapsto> v))\<rparr>)"

text \<open>
  \<open>char_value_loop\<close> is the \<^verbatim>\<open>for\<close> loop over the border strips, with the running
  \<^verbatim>\<open>result\<close>; the tail of \<^verbatim>\<open>rho\<close> is \<^verbatim>\<open>{rho.begin() + 1, rho.end()}\<close>.  The read
  \<^verbatim>\<open>rho[0]\<close> of an empty vector is \<open>OutOfBounds\<close>.
\<close>

function char_value :: "CharTable \<Rightarrow> Partition \<Rightarrow> Partition \<Rightarrow> (error + int \<times> CharTable) option"
  and char_value_loop :: "CharTable \<Rightarrow> PartitionWithoutBorderStrip list \<Rightarrow> Partition \<Rightarrow> int
    \<Rightarrow> (error + int \<times> CharTable) option" where
  "char_value self lambda0 rho0 =
     (let lambda = correct_partition lambda0; rho = correct_partition rho0 in
      if Sum_vec lambda < 2 then Some (Inr (1, self))
      else
        (let self1 = touch self lambda in
         case find_value self1 lambda rho of
           Some v \<Rightarrow> Some (Inr (v, self1))
         | None \<Rightarrow>
             (case rho of
                [] \<Rightarrow> Some (Inl OutOfBounds)
              | rho_0 # rho_tail \<Rightarrow>
                  (case get_border_strips lambda (to_int rho_0) of
                     None \<Rightarrow> None
                   | Some (Inl e) \<Rightarrow> Some (Inl e)
                   | Some (Inr border_strips) \<Rightarrow>
                       (case char_value_loop self1 border_strips rho_tail 0 of
                          None \<Rightarrow> None
                        | Some (Inl e) \<Rightarrow> Some (Inl e)
                        | Some (Inr (result, self2)) \<Rightarrow>
                            Some (Inr (result, store self2 lambda rho result)))))))"
| "char_value_loop self [] rho_tail result = Some (Inr (result, self))"
| "char_value_loop self (pair # rest) rho_tail result =
     (case char_value self (correct_partition (sub_partition pair)) rho_tail of
        None \<Rightarrow> None
      | Some (Inl e) \<Rightarrow> Some (Inl e)
      | Some (Inr (v, self')) \<Rightarrow>
          char_value_loop self' rest rho_tail
            (result + MinusOnePow (usub (length (correct_partition (border_strip pair))) 1) * v))"
  by pat_completeness auto
termination char_value
proof (relation "inv_image (less_than <*lex*> less_than)
    (\<lambda>x. case x of
       Inl (self, lambda0, rho0) \<Rightarrow> (length (correct_partition rho0), 0)
     | Inr (self, strips, rho_tail, result) \<Rightarrow> (length (correct_partition rho_tail), Suc (length strips)))",
    goal_cases)
  case 1
  show ?case by (intro wf_inv_image wf_lex_prod wf_less_than)
next
  case (2 self lambda0 rho0 lambda rho self1 rho_0 rho_tail e border_strips)
  have "length (correct_partition rho_tail) \<le> length rho_tail"
    by (simp add: correct_partition_def)
  moreover have "Suc (length rho_tail) = length (correct_partition rho0)"
    using 2 by (metis length_Cons)
  ultimately show ?case by simp
next
  case 3
  then show ?case by simp
next
  case 4
  then show ?case by simp
qed

subsection \<open>character_table\<close>

function table_row :: "CharTable \<Rightarrow> Partition list \<Rightarrow> nat \<Rightarrow> nat \<Rightarrow> int list list
    \<Rightarrow> (error + int list list \<times> CharTable) option" where
  "table_row self parts i_index j_index table =
     (if j_index < length parts then
        (case char_value self (parts ! i_index) (parts ! j_index) of
           None \<Rightarrow> None
         | Some (Inl e) \<Rightarrow> Some (Inl e)
         | Some (Inr (cv, self')) \<Rightarrow>
             table_row self' parts i_index (j_index + 1)
               (table[i_index := (table ! i_index)[j_index := cv]]))
      else Some (Inr (table, self)))"
  by pat_completeness auto
termination table_row
  by (relation "measure (\<lambda>(self, parts, i_index, j_index, table). length parts - j_index)") auto

function table_rows :: "CharTable \<Rightarrow> Partition list \<Rightarrow> nat \<Rightarrow> int list list
    \<Rightarrow> (error + int list list \<times> CharTable) option" where
  "table_rows self parts i_index table =
     (if i_index < length parts then
        (case table_row self parts i_index 0 table of
           None \<Rightarrow> None
         | Some (Inl e) \<Rightarrow> Some (Inl e)
         | Some (Inr (table', self')) \<Rightarrow> table_rows self' parts (i_index + 1) table')
      else Some (Inr (table, self)))"
  by pat_completeness auto
termination table_rows
  by (relation "measure (\<lambda>(self, parts, i_index, table). length parts - i_index)") auto

definition character_table :: "CharTable \<Rightarrow> nat \<Rightarrow> (error + int list list \<times> CharTable) option" where
  "character_table self n =
     (case calculate_partitions self n of
        Inl e \<Rightarrow> Some (Inl e)
      | Inr (partitions_for_n, self1) \<Rightarrow>
          table_rows self1 partitions_for_n 0
            (replicate (length partitions_for_n) (replicate (length partitions_for_n) 0)))"

section \<open>Notions of the specification\<close>

text \<open>A partition is kept with positive parts only.\<close>

definition positive_parts :: "Partition \<Rightarrow> bool" where
  "positive_parts p = (\<forall>item\<in>set p. 0 < item)"

text \<open>
  Every partition a \<open>CharTable\<close> holds: the outer keys of the cache, the inner keys,
  and the members of the table of partitions.
\<close>

definition stored_partitions :: "CharTable \<Rightarrow> Partition set" where
  "stored_partitions self =
     {lambda. character_values self lambda \<noteq> None}
     \<union> {rho. \<exists>lambda inner. character_values self lambda = Some inner \<and> inner rho \<noteq> None}
     \<union> {p. \<exists>ps\<in>set (partitions self). p \<in> set ps}"

text \<open>
  The states of one \<open>CharTable\<close> instance: the fresh instance, and what a returning
  call of one of the three public methods leaves behind.
\<close>

inductive reachable :: "CharTable \<Rightarrow> bool" where
  fresh: "reachable CharTable_init"
| after_char_value:
    "reachable self \<Longrightarrow> char_value self lambda rho = Some (Inr (v, self')) \<Longrightarrow> reachable self'"
| after_calculate_partitions:
    "reachable self \<Longrightarrow> calculate_partitions self n = Inr (ps, self') \<Longrightarrow> reachable self'"
| after_character_table:
    "reachable self \<Longrightarrow> character_table self n = Some (Inr (table, self')) \<Longrightarrow> reachable self'"

text \<open>The cache of \<open>self'\<close> holds every value the cache of \<open>self\<close> holds.\<close>

definition cache_extends :: "CharTable \<Rightarrow> CharTable \<Rightarrow> bool" where
  "cache_extends self self' =
     (partitions self' = partitions self
      \<and> (\<forall>l r x. find_value self l r = Some x \<longrightarrow> find_value self' l r = Some x))"

text \<open>
  \<open>char_value self lambda rho\<close> returns \<open>v\<close> without any computation: from the base case,
  or from the cache.
\<close>

definition known :: "CharTable \<Rightarrow> Partition \<Rightarrow> Partition \<Rightarrow> int \<Rightarrow> bool" where
  "known self lambda rho v =
     (if Sum_vec (correct_partition lambda) < 2 then v = 1
      else find_value self (correct_partition lambda) (correct_partition rho) = Some v)"

text \<open>The invariant of C9: every stored partition has positive parts only.\<close>

definition all_stored_positive :: "CharTable \<Rightarrow> bool" where
  "all_stored_positive self = (\<forall>p\<in>stored_partitions self. positive_parts p)"

text \<open>
  The invariant behind C10: a cached value whose key admits no border strip of the
  length \<^verbatim>\<open>rho[0]\<close> is 0.
\<close>

definition empty_strips_zero :: "CharTable \<Rightarrow> bool" where
  "empty_strips_zero self =
     (\<forall>lambda rho_0 rho_tail v.
        find_value self lambda (rho_0 # rho_tail) = Some v \<longrightarrow>
        get_border_strips lambda (to_int rho_0) = Some (Inr []) \<longrightarrow> v = 0)"

text \<open>
  A partition: positive parts in non-increasing order.  \<open>fits_int\<close> is the range in which
  \<^verbatim>\<open>static_cast<int>\<close> changes no part (the spec leaves larger values out of scope).
\<close>

definition non_increasing :: "Partition \<Rightarrow> bool" where
  "non_increasing p = sorted_wrt (\<lambda>a b. b \<le> a) p"

definition is_partition :: "Partition \<Rightarrow> bool" where
  "is_partition p = (positive_parts p \<and> non_increasing p)"

definition fits_int :: "Partition \<Rightarrow> bool" where
  "fits_int p = (\<forall>item\<in>set p. item < 2 ^ 31)"

text \<open>
  The cells of the diagram of \<open>lambda\<close> that are not in \<open>mu\<close>: row \<open>i\<close> holds the columns
  from \<open>mu ! i\<close> up to \<open>lambda ! i - 1\<close>.  Every row of such a shape is an interval, so the
  shape is connected when any two rows that hold a cell are joined by rows that each
  share a column with the next one; it has a 2x2 block when two neighbouring rows share
  two neighbouring columns.
\<close>

definition cell :: "Partition \<Rightarrow> Partition \<Rightarrow> nat \<Rightarrow> nat \<Rightarrow> bool" where
  "cell lambda mu i j = (i < length lambda \<and> mu ! i \<le> j \<and> j < lambda ! i)"

definition connected_strip :: "Partition \<Rightarrow> Partition \<Rightarrow> bool" where
  "connected_strip lambda mu =
     (\<forall>i k. i < k \<and> k < length lambda \<and> mu ! i < lambda ! i \<and> mu ! k < lambda ! k \<longrightarrow>
        (\<forall>r. i \<le> r \<and> r < k \<longrightarrow> (\<exists>c. cell lambda mu r c \<and> cell lambda mu (r + 1) c)))"

definition no_2x2 :: "Partition \<Rightarrow> Partition \<Rightarrow> bool" where
  "no_2x2 lambda mu =
     (\<not> (\<exists>i j. cell lambda mu i j \<and> cell lambda mu i (j + 1)
               \<and> cell lambda mu (i + 1) j \<and> cell lambda mu (i + 1) (j + 1)))"

text \<open>
  What the contract of \<open>get_border_strips\<close> says of a returned pair: row by row the
  sub-partition and the strip add up to \<open>lambda\<close>, the strip has \<open>m\<close> cells, the
  sub-partition without its zero parts is a partition, and the strip is connected and
  has no 2x2 block.
\<close>

definition border_strip_removed :: "Partition \<Rightarrow> int \<Rightarrow> PartitionWithoutBorderStrip \<Rightarrow> bool" where
  "border_strip_removed lambda m p =
     (length (sub_partition p) = length lambda \<and> length (border_strip p) = length lambda
      \<and> (\<forall>i<length lambda. sub_partition p ! i + border_strip p ! i = lambda ! i)
      \<and> int (sum_list (border_strip p)) = m
      \<and> is_partition (correct_partition (sub_partition p))
      \<and> connected_strip lambda (sub_partition p)
      \<and> no_2x2 lambda (sub_partition p))"

text \<open>
  The loop invariant of \<open>get_border_strips\<close>, for the input \<open>L\<close> and the strip length
  \<open>m\<close>.  The strip under construction occupies the rows from \<open>chain_start\<close> to \<open>row\<close>;
  above \<open>row\<close> each of its rows ends one column before the row below begins.
\<close>

definition chain_start :: "Partition \<Rightarrow> nat \<Rightarrow> nat \<Rightarrow> nat" where
  "chain_start xi row fnz = (if fnz < row \<and> xi ! fnz = 0 then fnz + 1 else fnz)"

definition gbs_inv :: "Partition \<Rightarrow> int \<Rightarrow> Partition \<Rightarrow> Partition \<Rightarrow> nat \<Rightarrow> nat \<Rightarrow> int \<Rightarrow> bool" where
  "gbs_inv L m lam xi row fnz bs =
     (length lam = length L \<and> length xi = length L
      \<and> (\<forall>i<length L. lam ! i + xi ! i = L ! i)
      \<and> fnz \<le> row \<and> row \<le> length L
      \<and> (\<forall>i<length L. i < chain_start xi row fnz \<or> row < i \<longrightarrow> xi ! i = 0)
      \<and> (\<forall>i. chain_start xi row fnz \<le> i \<and> i < row \<longrightarrow> row < length L \<and> lam ! i + 1 = L ! (i + 1))
      \<and> (chain_start xi row fnz < row \<longrightarrow> 1 \<le> xi ! row)
      \<and> (row + 1 < length L \<longrightarrow> L ! (row + 1) \<le> lam ! row)
      \<and> bs + int (sum_list xi) = m)"

text \<open>
  What decreases from one pass of the loop to the next: the rows left, then whether the
  row at \<open>first_non_zero_row\<close> still holds cells of the strip, then the counter.
\<close>

definition chain_flag :: "Partition \<Rightarrow> nat \<Rightarrow> nat \<Rightarrow> nat" where
  "chain_flag xi row fnz = (if fnz < row \<and> xi ! fnz = 0 then 0 else 1)"

definition gbs_measure :: "nat \<Rightarrow> Partition \<Rightarrow> nat \<Rightarrow> nat \<Rightarrow> int \<Rightarrow> nat \<times> nat \<times> nat" where
  "gbs_measure n xi row fnz bs = (n - row, chain_flag xi row fnz, nat bs)"

text \<open>
  What one pass of the loop body achieves from a state that satisfies the invariant: it
  returns the pairs found so far, or it goes on in a state that satisfies the invariant,
  with at most one more pair, which is a border strip removal, and closer to the end.
\<close>

definition gbs_progress ::
  "Partition \<Rightarrow> int \<Rightarrow> Partition \<Rightarrow> nat \<Rightarrow> nat \<Rightarrow> int \<Rightarrow> PartitionWithoutBorderStrip list
    \<Rightarrow> loop_step \<Rightarrow> bool" where
  "gbs_progress L m xi row fnz bs res st =
     (case st of
        Stop r \<Rightarrow> r = Inr res
      | Next lam' xi' row' fnz' bs' res' \<Rightarrow>
          gbs_inv L m lam' xi' row' fnz' bs'
          \<and> (res' = res \<or> (\<exists>p. res' = res @ [p] \<and> border_strip_removed L m p
                                  \<and> non_increasing (sub_partition p)))
          \<and> (0 < bs' \<and> row' < length L \<longrightarrow>
               (gbs_measure (length L) xi' row' fnz' bs', gbs_measure (length L) xi row fnz bs)
                 \<in> less_than <*lex*> less_than <*lex*> less_than))"

text \<open>A returned pair is a border strip removal whose sub-partition is non-increasing as it stands.\<close>

definition strip_ok :: "Partition \<Rightarrow> int \<Rightarrow> PartitionWithoutBorderStrip \<Rightarrow> bool" where
  "strip_ok lambda m p = (border_strip_removed lambda m p \<and> non_increasing (sub_partition p))"

text \<open>
  The arguments \<open>char_value\<close> is specified for: without its zero parts, \<open>lambda\<close> is a
  partition whose parts fit \<^verbatim>\<open>int\<close> and that has fewer than \<open>2 ^ 31\<close> rows.
\<close>

definition admissible :: "Partition \<Rightarrow> bool" where
  "admissible lambda =
     (is_partition (correct_partition lambda) \<and> fits_int (correct_partition lambda)
      \<and> length (correct_partition lambda) < 2 ^ 31)"

text \<open>
  The sign of a permutation of cycle type \<open>rho\<close>, as the specification writes it: the
  product of \<open>(-1) ^ (rho_i - 1)\<close> over the parts.
\<close>

definition sign_of :: "Partition \<Rightarrow> int" where
  "sign_of rho = prod_list (map (\<lambda>part. (- 1) ^ (part - 1)) rho)"

text \<open>
  \<open>v\<close> is the value of the sign character: when \<open>lambda\<close> is the all-ones partition of the
  sum of \<open>rho\<close> (both without their zero parts), \<open>v\<close> is the sign of \<open>rho\<close>.  The invariant
  \<open>sign_cached\<close> says so of every value in the cache, and \<open>sign_loop\<close> of the sum that the
  loop over the border strips computes when there is one strip.
\<close>

definition sign_value :: "Partition \<Rightarrow> Partition \<Rightarrow> int \<Rightarrow> bool" where
  "sign_value lambda rho v =
     (sum_list (correct_partition rho) < 2 ^ 31
      \<and> correct_partition lambda = replicate (sum_list (correct_partition rho)) 1
      \<longrightarrow> v = sign_of (correct_partition rho))"

definition sign_cached :: "CharTable \<Rightarrow> bool" where
  "sign_cached self =
     (\<forall>lambda rho v. find_value self (correct_partition lambda) (correct_partition rho) = Some v
        \<longrightarrow> sign_value lambda rho v)"

definition sign_loop :: "PartitionWithoutBorderStrip list \<Rightarrow> Partition \<Rightarrow> int \<Rightarrow> int \<Rightarrow> bool" where
  "sign_loop strips rt acc v =
     ((strips = [] \<longrightarrow> v = acc)
      \<and> (\<forall>p. strips = [p] \<and> sum_list (correct_partition rt) < 2 ^ 31
              \<and> correct_partition (sub_partition p) = replicate (sum_list (correct_partition rt)) 1
              \<longrightarrow> v = acc + MinusOnePow (usub (length (correct_partition (border_strip p))) 1)
                            * sign_of (correct_partition rt)))"

declare down_run.simps [simp del] dec_rows.simps [simp del] refund.simps [simp del]
  calc_loop.simps [simp del] table_row.simps [simp del] table_rows.simps [simp del]
  char_value.simps [simp del]

section \<open>Evaluation on concrete inputs\<close>

lemmas machine_defs = uadd_def usub_def to_int_def to_size_def

lemmas gbs_eval = get_border_strips_def gbs_loop.simps gbs_body_def emit_def down_run.simps
  dec_rows.simps refund.simps machine_defs Let_def

lemmas cv_eval = char_value.simps table_row.simps table_rows.simps touch_def find_value_def
  store_def correct_partition_def Sum_vec_def MinusOnePow_def

lemmas cp_eval = calculate_partitions_def calc_loop.simps partitions_of_num_def uadd_def
  Let_def

lemma calculate_partitions_3:
  "calculate_partitions CharTable_init 3 =
     Inr ([[3], [2, 1], [1, 1, 1]],
          CharTable_init\<lparr>partitions := [[[]], [[1]], [[2], [1, 1]], [[3], [2, 1], [1, 1, 1]]]\<rparr>)"
  by (simp add: cp_eval CharTable_init_def)

text \<open>
  C1.  For \<open>n = 3\<close> the partitions are generated in the order \<open>[3]\<close>, \<open>[2,1]\<close>,
  \<open>[1,1,1]\<close>, and \<open>character_table\<close> returns, in that order of rows and columns, the
  rows \<open>(1, 1, 1)\<close>, \<open>(-1, 0, 2)\<close> and \<open>(1, -1, 1)\<close>.
\<close>

theorem character_table_3:
  "map_sum id fst (calculate_partitions CharTable_init 3) = Inr [[3], [2, 1], [1, 1, 1]]
   \<and> map_option (map_sum id fst) (character_table CharTable_init 3)
       = Some (Inr [[1, 1, 1], [- 1, 0, 2], [1, - 1, 1]])"
proof
  show "map_sum id fst (calculate_partitions CharTable_init 3) = Inr [[3], [2, 1], [1, 1, 1]]"
    by (simp add: calculate_partitions_3)
  show "map_option (map_sum id fst) (character_table CharTable_init 3)
       = Some (Inr [[1, 1, 1], [- 1, 0, 2], [1, - 1, 1]])"
    apply (simp add: character_table_def calculate_partitions_3)
    apply (simp add: gbs_eval cv_eval CharTable_init_def)
    done
qed

text \<open>
  C2, at the input \<open>n = 4\<close>.  \<^verbatim>\<open>std::unique\<close> removes only neighbours that are equal,
  and the candidates are not sorted before it: \<open>calculate_partitions\<close> returns seven
  partitions of 4, with \<open>[3,1]\<close> and \<open>[2,1,1]\<close> twice, where \<open>p(4) = 5\<close>.
\<close>

theorem calculate_partitions_4_duplicates:
  "map_sum id fst (calculate_partitions CharTable_init 4)
     = Inr [[4], [3, 1], [2, 2], [2, 1, 1], [3, 1], [2, 1, 1], [1, 1, 1, 1]]"
  by (simp add: cp_eval CharTable_init_def)

text \<open>
  C4, as stated: \<open>get_border_strips [3,1] 2\<close> does not return two pairs.
\<close>

theorem border_strips_31_not_two:
  "map_option (map_sum id length) (get_border_strips [3, 1] 2) \<noteq> Some (Inr 2)"
  by (simp add: gbs_eval)


section \<open>Runs of char_value\<close>

lemma find_value_touch [simp]: "find_value (touch s l) l' r = find_value s l' r"
  by (auto simp: find_value_def touch_def split: option.splits)

lemma partitions_touch [simp]: "partitions (touch s l) = partitions s"
  by (simp add: touch_def split: option.splits)

lemma find_value_store [simp]:
  "find_value (store s l r v) l' r' = (if l' = l \<and> r' = r then Some v else find_value s l' r')"
  by (auto simp: find_value_def touch_def store_def Let_def split: option.splits)

lemma partitions_store [simp]: "partitions (store s l r v) = partitions s"
  by (simp add: store_def touch_def Let_def split: option.splits)

lemma touch_idem: "find_value s l r = Some v \<Longrightarrow> touch s l = s"
  by (auto simp: find_value_def touch_def split: option.splits)

lemma char_value_base: "Sum_vec (correct_partition l0) < 2 \<Longrightarrow> char_value s l0 r0 = Some (Inr (1, s))"
  by (simp add: char_value.simps)

lemma char_value_hit:
  "\<not> Sum_vec (correct_partition l0) < 2 \<Longrightarrow> find_value s (correct_partition l0) (correct_partition r0) = Some v
   \<Longrightarrow> char_value s l0 r0 = Some (Inr (v, s))"
  by (simp add: char_value.simps touch_idem)

lemma char_value_miss:
  "\<not> Sum_vec (correct_partition l0) < 2 \<Longrightarrow> find_value s (correct_partition l0) (correct_partition r0) = None
   \<Longrightarrow> char_value s l0 r0 =
     (case correct_partition r0 of
                [] \<Rightarrow> Some (Inl OutOfBounds)
              | rho_0 # rho_tail \<Rightarrow>
                  (case get_border_strips (correct_partition l0) (to_int rho_0) of
                     None \<Rightarrow> None
                   | Some (Inl e) \<Rightarrow> Some (Inl e)
                   | Some (Inr border_strips) \<Rightarrow>
                       (case char_value_loop (touch s (correct_partition l0)) border_strips rho_tail 0 of
                          None \<Rightarrow> None
                        | Some (Inl e) \<Rightarrow> Some (Inl e)
                        | Some (Inr (result, self2)) \<Rightarrow>
                            Some (Inr (result, store self2 (correct_partition l0) (correct_partition r0) result)))))"
  by (simp add: char_value.simps Let_def)

lemma char_value_loop_Nil: "char_value_loop s [] rt acc = Some (Inr (acc, s))"
  by (simp add: char_value.simps)

lemma char_value_loop_Cons: "char_value_loop s (pair # rest) rho_tail result =
     (case char_value s (correct_partition (sub_partition pair)) rho_tail of
        None \<Rightarrow> None
      | Some (Inl e) \<Rightarrow> Some (Inl e)
      | Some (Inr (v, self')) \<Rightarrow>
          char_value_loop self' rest rho_tail
            (result + MinusOnePow (usub (length (correct_partition (border_strip pair))) 1) * v))"
  by (simp add: char_value.simps)

lemma char_value_run_induct [case_names base hit miss nil cons]:
  assumes base: "\<And>s l0 r0. Sum_vec (correct_partition l0) < 2 \<Longrightarrow> P s l0 r0 1 s"
    and hit: "\<And>s l0 r0 v. \<not> Sum_vec (correct_partition l0) < 2 \<Longrightarrow>
        find_value s (correct_partition l0) (correct_partition r0) = Some v \<Longrightarrow> P s l0 r0 v s"
    and miss: "\<And>s l0 r0 r rt strips v s2. \<not> Sum_vec (correct_partition l0) < 2 \<Longrightarrow>
        find_value s (correct_partition l0) (correct_partition r0) = None \<Longrightarrow>
        correct_partition r0 = r # rt \<Longrightarrow>
        get_border_strips (correct_partition l0) (to_int r) = Some (Inr strips) \<Longrightarrow>
        char_value_loop (touch s (correct_partition l0)) strips rt 0 = Some (Inr (v, s2)) \<Longrightarrow>
        Q (touch s (correct_partition l0)) strips rt 0 v s2 \<Longrightarrow>
        P s l0 r0 v (store s2 (correct_partition l0) (correct_partition r0) v)"
    and nil: "\<And>s rt acc. Q s [] rt acc acc s"
    and cons: "\<And>s p rest rt acc v1 s1 v s'.
        char_value s (correct_partition (sub_partition p)) rt = Some (Inr (v1, s1)) \<Longrightarrow>
        P s (correct_partition (sub_partition p)) rt v1 s1 \<Longrightarrow>
        char_value_loop s1 rest rt
          (acc + MinusOnePow (usub (length (correct_partition (border_strip p))) 1) * v1) = Some (Inr (v, s')) \<Longrightarrow>
        Q s1 rest rt (acc + MinusOnePow (usub (length (correct_partition (border_strip p))) 1) * v1) v s' \<Longrightarrow>
        Q s (p # rest) rt acc v s'"
  shows "\<forall>v s'. char_value s l0 r0 = Some (Inr (v, s')) \<longrightarrow> P s l0 r0 v s'"
    and "\<forall>v s'. char_value_loop s strips rt acc = Some (Inr (v, s')) \<longrightarrow> Q s strips rt acc v s'"
proof (induction s l0 r0 and s strips rt acc rule: char_value_char_value_loop.induct)
  case (1 self lambda0 rho0)
  show ?case
  proof (intro allI impI)
    fix v s' assume cv: "char_value self lambda0 rho0 = Some (Inr (v, s'))"
    show "P self lambda0 rho0 v s'"
    proof (cases "Sum_vec (correct_partition lambda0) < 2")
      case True
      with cv base show ?thesis by (simp add: char_value_base)
    next
      case big: False
      show ?thesis
      proof (cases "find_value self (correct_partition lambda0) (correct_partition rho0)")
        case (Some x)
        with cv big hit show ?thesis
          by (simp add: char_value_hit)
      next
        case None
        note cv' = cv[unfolded char_value_miss[OF big None]]
        show ?thesis
        proof (cases "correct_partition rho0")
          case Nil
          with cv' show ?thesis by simp
        next
          case (Cons rho_0 rho_tail)
          from cv' Cons obtain border_strips self2 where
            g: "get_border_strips (correct_partition lambda0) (to_int rho_0) = Some (Inr border_strips)"
            and l: "char_value_loop (touch self (correct_partition lambda0)) border_strips rho_tail 0 = Some (Inr (v, self2))"
            and s': "s' = store self2 (correct_partition lambda0) (correct_partition rho0) v"
            by (auto split: option.splits sum.splits)
          have "Q (touch self (correct_partition lambda0)) border_strips rho_tail 0 v self2"
            using "1.IH"[OF refl refl big refl _ Cons g refl] None l by simp
          then show ?thesis
            unfolding s' using miss[OF big None Cons g l] by simp
        qed
      qed
    qed
  qed
next
  case (2 self rho_tail result)
  show ?case using nil by (simp add: char_value_loop_Nil)
next
  case (3 self pair rest rho_tail result)
  show ?case
  proof (intro allI impI)
    fix v s' assume l: "char_value_loop self (pair # rest) rho_tail result = Some (Inr (v, s'))"
    then obtain v1 s1 where
      c: "char_value self (correct_partition (sub_partition pair)) rho_tail = Some (Inr (v1, s1))"
      and r: "char_value_loop s1 rest rho_tail
            (result + MinusOnePow (usub (length (correct_partition (border_strip pair))) 1) * v1)
          = Some (Inr (v, s'))"
      by (auto simp: char_value_loop_Cons split: option.splits sum.splits)
    have p: "P self (correct_partition (sub_partition pair)) rho_tail v1 s1" using "3.IH"(1) c by blast
    have q: "Q s1 rest rho_tail (result + MinusOnePow (usub (length (correct_partition (border_strip pair))) 1) * v1) v s'"
      using "3.IH"(2)[OF c refl refl] r by blast
    show "Q self (pair # rest) rho_tail result v s'"
      by (rule cons[OF c p r q])
  qed
qed

subsection \<open>The cache only grows\<close>

lemma cache_extends_refl [simp]: "cache_extends s s"
  by (simp add: cache_extends_def)

lemma cache_extends_trans: "cache_extends s s1 \<Longrightarrow> cache_extends s1 s2 \<Longrightarrow> cache_extends s s2"
  by (simp add: cache_extends_def)

lemma char_value_extends_aux:
  "\<forall>v s'. char_value s l0 r0 = Some (Inr (v, s')) \<longrightarrow> cache_extends s s'"
  "\<forall>v s'. char_value_loop s strips rt acc = Some (Inr (v, s')) \<longrightarrow> cache_extends s s'"
proof (induction rule: char_value_run_induct
    [where P = "\<lambda>s l0 r0 v s'. cache_extends s s'" and Q = "\<lambda>s strips rt acc v s'. cache_extends s s'"])
  case (miss s l0 r0 r rt strips v s2)
  then show ?case by (auto simp: cache_extends_def)
next
  case (cons s p rest rt acc v1 s1 v s')
  then show ?case by (blast intro: cache_extends_trans)
qed simp_all

lemma char_value_extends: "char_value s l0 r0 = Some (Inr (v, s')) \<Longrightarrow> cache_extends s s'"
  using char_value_extends_aux(1) by blast

lemma char_value_known_aux:
  "\<forall>v s'. char_value s l0 r0 = Some (Inr (v, s')) \<longrightarrow> known s' l0 r0 v"
  "\<forall>v s'. char_value_loop s strips rt acc = Some (Inr (v, s')) \<longrightarrow> True"
  by (induction rule: char_value_run_induct
    [where P = "\<lambda>s l0 r0 v s'. known s' l0 r0 v" and Q = "\<lambda>s strips rt acc v s'. True"])
    (simp_all add: known_def)

lemma char_value_known: "char_value s l0 r0 = Some (Inr (v, s')) \<Longrightarrow> known s' l0 r0 v"
  using char_value_known_aux(1) by blast

lemma known_char_value: "known s l0 r0 v \<Longrightarrow> char_value s l0 r0 = Some (Inr (v, s))"
  by (auto simp: known_def char_value_base char_value_hit split: if_splits)

lemma known_extends: "cache_extends s s' \<Longrightarrow> known s l0 r0 v \<Longrightarrow> known s' l0 r0 v"
  by (auto simp: known_def cache_extends_def split: if_splits)

subsection \<open>Invariants of the reachable states\<close>

lemma table_row_preserves:
  assumes cv: "\<And>s l r v s'. I s \<Longrightarrow> char_value s l r = Some (Inr (v, s')) \<Longrightarrow> I s'"
  shows "I s \<Longrightarrow> table_row s ps i j t = Some (Inr (t', s')) \<Longrightarrow> I s'"
proof (induction s ps i j t rule: table_row.induct)
  case (1 self parts i_index j_index table)
  show ?case
  proof (cases "j_index < length parts")
    case True
    with "1.prems"(2) obtain cv1 s1 where
      c: "char_value self (parts ! i_index) (parts ! j_index) = Some (Inr (cv1, s1))"
      and r: "table_row s1 parts i_index (j_index + 1)
               (table[i_index := (table ! i_index)[j_index := cv1]]) = Some (Inr (t', s'))"
      by (subst (asm) table_row.simps) (auto split: option.splits sum.splits)
    have "I s1" using cv[OF "1.prems"(1) c] .
    then show ?thesis using "1.IH"[OF True c refl refl _ r] by simp
  next
    case False
    with "1.prems" show ?thesis by (subst (asm) table_row.simps) simp
  qed
qed

lemma table_rows_preserves:
  assumes cv: "\<And>s l r v s'. I s \<Longrightarrow> char_value s l r = Some (Inr (v, s')) \<Longrightarrow> I s'"
  shows "I s \<Longrightarrow> table_rows s ps i t = Some (Inr (t', s')) \<Longrightarrow> I s'"
proof (induction s ps i t rule: table_rows.induct)
  case (1 self parts i_index table)
  show ?case
  proof (cases "i_index < length parts")
    case True
    with "1.prems"(2) obtain t1 s1 where
      c: "table_row self parts i_index 0 table = Some (Inr (t1, s1))"
      and r: "table_rows s1 parts (i_index + 1) t1 = Some (Inr (t', s'))"
      by (subst (asm) table_rows.simps) (auto split: option.splits sum.splits)
    have "I s1" using table_row_preserves[of I, OF cv "1.prems"(1) c] by simp
    then show ?thesis using "1.IH"[OF True c refl refl _ r] by simp
  next
    case False
    with "1.prems" show ?thesis by (subst (asm) table_rows.simps) simp
  qed
qed

lemma reachable_invariant:
  assumes init: "I CharTable_init"
    and cv: "\<And>s l r v s'. I s \<Longrightarrow> char_value s l r = Some (Inr (v, s')) \<Longrightarrow> I s'"
    and cp: "\<And>s n ps s'. I s \<Longrightarrow> calculate_partitions s n = Inr (ps, s') \<Longrightarrow> I s'"
  shows "reachable s \<Longrightarrow> I s"
proof (induction rule: reachable.induct)
  case fresh
  show ?case by (rule init)
next
  case (after_char_value self lambda rho v self')
  then show ?case using cv by blast
next
  case (after_calculate_partitions self n ps self')
  then show ?case using cp by blast
next
  case (after_character_table self n table self')
  from after_character_table.hyps(2) obtain ps s1 where
    c: "calculate_partitions self n = Inr (ps, s1)"
    and t: "table_rows s1 ps 0 (replicate (length ps) (replicate (length ps) 0)) = Some (Inr (table, self'))"
    by (auto simp: character_table_def split: sum.splits)
  have "I s1" using cp[OF after_character_table.IH c] .
  then show ?case using table_rows_preserves[of I, OF cv _ t] by simp
qed

subsection \<open>Stored partitions have positive parts\<close>

lemma positive_correct_partition [simp]: "positive_parts (correct_partition l)"
  by (simp add: positive_parts_def correct_partition_def)

lemma stored_positive_iff:
  "all_stored_positive s \<longleftrightarrow>
     (\<forall>l inner. character_values s l = Some inner \<longrightarrow>
        positive_parts l \<and> (\<forall>r. inner r \<noteq> None \<longrightarrow> positive_parts r))
     \<and> (\<forall>ps\<in>set (partitions s). \<forall>p\<in>set ps. positive_parts p)"
  unfolding all_stored_positive_def stored_partitions_def by blast

lemma character_values_touch:
  "character_values (touch s l) l' =
     (if l' = l \<and> character_values s l = None then Some Map.empty else character_values s l')"
  by (simp add: touch_def split: option.splits)

lemma character_values_store:
  "character_values (store s l r v) l' =
     (if l' = l then Some ((case character_values s l of None \<Rightarrow> Map.empty | Some inner \<Rightarrow> inner)(r \<mapsto> v))
      else character_values s l')"
  by (simp add: store_def touch_def Let_def split: option.splits)

lemma stored_positive_touch:
  assumes "all_stored_positive s" "positive_parts l"
  shows "all_stored_positive (touch s l)"
  using assms unfolding stored_positive_iff character_values_touch partitions_touch
  by (simp split: if_splits) 

lemma stored_positive_store:
  assumes "all_stored_positive s" "positive_parts l" "positive_parts r"
  shows "all_stored_positive (store s l r v)"
  using assms unfolding stored_positive_iff character_values_store partitions_store
  by (auto split: if_splits option.splits)

lemma char_value_positive_aux:
  "\<forall>v s'. char_value s l0 r0 = Some (Inr (v, s')) \<longrightarrow> all_stored_positive s \<longrightarrow> all_stored_positive s'"
proof (rule char_value_run_induct(1)
    [where P = "\<lambda>s l0 r0 v s'. all_stored_positive s \<longrightarrow> all_stored_positive s'"
       and Q = "\<lambda>s strips rt acc v s'. all_stored_positive s \<longrightarrow> all_stored_positive s'"],
    goal_cases)
  case (3 s l0 r0 r rt strips v s2)
  show ?case
  proof
    assume a: "all_stored_positive s"
    have "all_stored_positive (touch s (correct_partition l0))"
      using a by (simp add: stored_positive_touch)
    with 3(6) have "all_stored_positive s2" by (rule mp)
    then show "all_stored_positive (store s2 (correct_partition l0) (correct_partition r0) v)"
      by (simp add: stored_positive_store)
  qed
next
  case (5 s p rest rt acc v1 s1 v s')
  from 5(2) 5(4) show ?case by simp
qed simp_all

lemma char_value_positive:
  "all_stored_positive s \<Longrightarrow> char_value s l0 r0 = Some (Inr (v, s')) \<Longrightarrow> all_stored_positive s'"
  using char_value_positive_aux by simp


lemma positive_partitions_of_num:
  assumes "\<forall>ps\<in>set parts. \<forall>p\<in>set ps. positive_parts p" "num \<le> length parts"
  shows "\<forall>p\<in>set (partitions_of_num parts num). positive_parts p"
proof
  fix p assume "p \<in> set (partitions_of_num parts num)"
  then obtain index q where i: "index < num" and q: "q \<in> set (parts ! index)"
    and p: "p = rev (sort (q @ [num - index]))"
    by (auto simp: partitions_of_num_def)
  have "parts ! index \<in> set parts" using i assms(2) by simp
  then have "positive_parts q" using assms(1) q by blast
  then show "positive_parts p" using i by (auto simp: p positive_parts_def)
qed

lemma positive_calc_loop:
  "\<forall>ps\<in>set parts. \<forall>p\<in>set ps. positive_parts p \<Longrightarrow>
   \<forall>ps\<in>set (calc_loop parts n). \<forall>p\<in>set ps. positive_parts p"
proof (induction parts n rule: calc_loop.induct)
  case (1 parts n)
  show ?case
  proof (cases "length parts < uadd n 1")
    case True
    have "\<forall>ps\<in>set (parts @ [partitions_of_num parts (length parts)]). \<forall>p\<in>set ps. positive_parts p"
      using "1.prems" positive_partitions_of_num[OF "1.prems" order_refl] by simp
    from "1.IH"[OF True this] True show ?thesis by (subst calc_loop.simps) simp
  next
    case False
    with "1.prems" show ?thesis by (subst calc_loop.simps) simp
  qed
qed

lemma calculate_partitions_positive:
  assumes "all_stored_positive s" "calculate_partitions s n = Inr (ps, s')"
  shows "all_stored_positive s'"
proof -
  have a: "\<forall>ps\<in>set (partitions s). \<forall>p\<in>set ps. positive_parts p"
    using assms(1) unfolding stored_positive_iff by simp
  have s': "s' = s\<lparr>partitions := calc_loop (partitions s) n\<rparr>"
    using assms(2) by (auto simp: calculate_partitions_def Let_def split: if_splits)
  show ?thesis
    using positive_calc_loop[OF a, of n] assms(1) unfolding s' stored_positive_iff
    by simp
qed

lemma all_stored_positive_init: "all_stored_positive CharTable_init"
  unfolding stored_positive_iff by (simp add: CharTable_init_def positive_parts_def)

text \<open>
  C9.  In every reachable state of a \<open>CharTable\<close>, every stored partition (outer key,
  inner key, member of the table of partitions) has positive parts only.
\<close>

theorem stored_partitions_positive:
  assumes "reachable self"
  shows "\<forall>p\<in>stored_partitions self. positive_parts p"
proof -
  have "all_stored_positive self"
    by (rule reachable_invariant[where I = all_stored_positive,
          OF all_stored_positive_init char_value_positive calculate_partitions_positive assms])
  then show ?thesis by (simp add: all_stored_positive_def)
qed

theorem stored_partitions_positive_witness:
  "\<exists>table self. character_table CharTable_init 3 = Some (Inr (table, self))
     \<and> [2, 1] \<in> stored_partitions self \<and> positive_parts [2, 1]"
proof -
  obtain table self where c: "character_table CharTable_init 3 = Some (Inr (table, self))"
    and p: "partitions self = [[[]], [[1]], [[2], [1, 1]], [[3], [2, 1], [1, 1, 1]]]"
    apply (simp add: character_table_def calculate_partitions_3)
    apply (simp add: gbs_eval cv_eval CharTable_init_def)
    done
  have m: "[2, 1] \<in> stored_partitions self"
    by (simp add: stored_partitions_def p)
  have "reachable self"
    using reachable.after_character_table[OF reachable.fresh c] .
  from stored_partitions_positive[OF this] m have "positive_parts [2, 1]" by blast
  with c m show ?thesis by blast
qed

subsection \<open>No border strip, value 0\<close>

lemma find_value_partitions_update [simp]: "find_value (s\<lparr>partitions := ps\<rparr>) l r = find_value s l r"
  by (simp add: find_value_def)

lemma empty_strips_zero_touch [simp]: "empty_strips_zero (touch s l) = empty_strips_zero s"
  by (simp add: empty_strips_zero_def)

lemma char_value_empty_strips_aux:
  "\<forall>v s'. char_value s l0 r0 = Some (Inr (v, s')) \<longrightarrow>
     empty_strips_zero s \<longrightarrow> empty_strips_zero s'"
proof (rule char_value_run_induct(1)
    [where P = "\<lambda>s l0 r0 v s'. empty_strips_zero s \<longrightarrow> empty_strips_zero s'"
       and Q = "\<lambda>s strips rt acc v s'. empty_strips_zero s \<longrightarrow>
                  empty_strips_zero s' \<and> (strips = [] \<longrightarrow> v = acc)"],
    goal_cases)
  case (3 s l0 r0 r rt strips v s2)
  show ?case
  proof
    assume a: "empty_strips_zero s"
    with 3(6) have s2: "empty_strips_zero s2" and v: "strips = [] \<longrightarrow> v = 0" by simp_all
    show "empty_strips_zero (store s2 (correct_partition l0) (correct_partition r0) v)"
      unfolding empty_strips_zero_def
    proof (intro allI impI)
      fix lambda rho_0 rho_tail x
      assume f: "find_value (store s2 (correct_partition l0) (correct_partition r0) v) lambda (rho_0 # rho_tail) = Some x"
        and g: "get_border_strips lambda (to_int rho_0) = Some (Inr [])"
      show "x = 0"
      proof (cases "lambda = correct_partition l0 \<and> rho_0 # rho_tail = correct_partition r0")
        case True
        with f have "x = v" by simp
        moreover from True 3(3) 3(4) g have "strips = []" by simp
        ultimately show ?thesis using v by simp
      next
        case False
        with f have "find_value s2 lambda (rho_0 # rho_tail) = Some x" by (simp split: if_splits)
        with s2 g show ?thesis unfolding empty_strips_zero_def by blast
      qed
    qed
  qed
next
  case (5 s p rest rt acc v1 s1 v s')
  from 5(2) 5(4) show ?case by simp
qed simp_all

lemma char_value_empty_strips:
  "empty_strips_zero s \<Longrightarrow> char_value s l0 r0 = Some (Inr (v, s')) \<Longrightarrow> empty_strips_zero s'"
  using char_value_empty_strips_aux by simp

lemma calculate_partitions_empty_strips:
  "empty_strips_zero s \<Longrightarrow> calculate_partitions s n = Inr (ps, s') \<Longrightarrow> empty_strips_zero s'"
  by (auto simp: calculate_partitions_def Let_def empty_strips_zero_def split: if_splits)

lemma empty_strips_zero_init: "empty_strips_zero CharTable_init"
  by (simp add: empty_strips_zero_def find_value_def CharTable_init_def)

text \<open>
  C10.  In a reachable state, when the normalized \<open>lambda\<close> has sum at least 2 and
  \<open>get_border_strips\<close> returns no pair for the first part of the normalized \<open>rho\<close>,
  \<open>char_value\<close> returns 0, and afterwards the cache holds 0 under the normalized key.
\<close>

theorem char_value_no_strips:
  assumes "reachable self"
    and "\<not> Sum_vec (correct_partition lambda) < 2"
    and "correct_partition rho = rho_0 # rho_tail"
    and "get_border_strips (correct_partition lambda) (to_int rho_0) = Some (Inr [])"
  shows "\<exists>self'. char_value self lambda rho = Some (Inr (0, self'))
           \<and> find_value self' (correct_partition lambda) (correct_partition rho) = Some 0"
proof -
  have inv: "empty_strips_zero self"
    by (rule reachable_invariant[where I = empty_strips_zero,
          OF empty_strips_zero_init char_value_empty_strips calculate_partitions_empty_strips assms(1)])
  show ?thesis
  proof (cases "find_value self (correct_partition lambda) (correct_partition rho)")
    case None
    have "char_value self lambda rho =
        Some (Inr (0, store (touch self (correct_partition lambda)) (correct_partition lambda) (correct_partition rho) 0))"
      by (simp add: char_value_miss[OF assms(2) None] assms(3)[symmetric] assms(4) char_value_loop_Nil)
        (simp add: assms(3) assms(4) char_value_loop_Nil)
    then show ?thesis by simp
  next
    case (Some v)
    with inv assms(3,4) have "v = 0" unfolding empty_strips_zero_def by metis
    with Some char_value_hit[OF assms(2), of self rho v] show ?thesis by simp
  qed
qed

theorem char_value_no_strips_witness:
  "\<exists>self'. char_value CharTable_init [2, 0] [3] = Some (Inr (0, self'))
           \<and> find_value self' [2] [3] = Some 0"
proof -
  have "\<exists>self'. char_value CharTable_init [2, 0] [3] = Some (Inr (0, self'))
           \<and> find_value self' (correct_partition [2, 0]) (correct_partition [3]) = Some 0"
  proof (rule char_value_no_strips[OF reachable.fresh])
    show "\<not> Sum_vec (correct_partition [2, 0]) < 2"
      by (simp add: correct_partition_def Sum_vec_def uadd_def)
    show "correct_partition [3] = 3 # []"
      by (simp add: correct_partition_def)
    show "get_border_strips (correct_partition [2, 0]) (to_int 3) = Some (Inr [])"
      by (simp add: correct_partition_def gbs_eval)
  qed
  then show ?thesis by (simp add: correct_partition_def)
qed

subsection \<open>The second call of character_table\<close>

lemma table_row_first:
  "table_row s ps i j t = Some (Inr (t', s')) \<Longrightarrow> i < length t \<Longrightarrow> length (t ! i) = length ps \<Longrightarrow>
   cache_extends s s' \<and> length t' = length t
   \<and> (\<forall>i'. length (t' ! i') = length (t ! i'))
   \<and> (\<forall>i'. i' \<noteq> i \<longrightarrow> t' ! i' = t ! i')
   \<and> (\<forall>j'. j' < j \<longrightarrow> t' ! i ! j' = t ! i ! j')
   \<and> (\<forall>j'. j \<le> j' \<and> j' < length ps \<longrightarrow> known s' (ps ! i) (ps ! j') (t' ! i ! j'))"
proof (induction s ps i j t rule: table_row.induct)
  case (1 self parts i_index j_index table)
  show ?case
  proof (cases "j_index < length parts")
    case False
    with "1.prems" show ?thesis by (subst (asm) table_row.simps) auto
  next
    case True
    define t1 where "t1 cv1 = table[i_index := (table ! i_index)[j_index := cv1]]" for cv1
    from True "1.prems"(1) obtain cv1 s1 where
      c: "char_value self (parts ! i_index) (parts ! j_index) = Some (Inr (cv1, s1))"
      and r: "table_row s1 parts i_index (j_index + 1) (t1 cv1) = Some (Inr (t', s'))"
      unfolding t1_def by (subst (asm) table_row.simps) (auto split: option.splits sum.splits)
    have t1i: "t1 cv1 ! i_index = (table ! i_index)[j_index := cv1]"
      and t1o: "\<And>i'. i' \<noteq> i_index \<Longrightarrow> t1 cv1 ! i' = table ! i'"
      and t1l: "length (t1 cv1) = length table"
      using "1.prems"(2) by (simp_all add: t1_def)
    have t1i': "i_index < length (t1 cv1)" using t1l "1.prems"(2) by simp
    have t1len: "length (t1 cv1 ! i_index) = length parts" using t1i "1.prems"(3) by simp
    note ih = "1.IH"[OF True c refl refl r[unfolded t1_def] t1i'[unfolded t1_def] t1len[unfolded t1_def], folded t1_def]
    note h1 = ih[THEN conjunct1, rule_format] and h2 = ih[THEN conjunct2, THEN conjunct1, rule_format] and h3 = ih[THEN conjunct2, THEN conjunct2, THEN conjunct1, rule_format] and h4 = ih[THEN conjunct2, THEN conjunct2, THEN conjunct2, THEN conjunct1, rule_format] and h5 = ih[THEN conjunct2, THEN conjunct2, THEN conjunct2, THEN conjunct2, THEN conjunct1, rule_format] and h6 = ih[THEN conjunct2, THEN conjunct2, THEN conjunct2, THEN conjunct2, THEN conjunct2, rule_format]
    have e: "cache_extends self s'"
      using char_value_extends[OF c] h1 by (rule cache_extends_trans)
    have len: "\<forall>i'. length (t' ! i') = length (table ! i')"
    proof
      fix i' show "length (t' ! i') = length (table ! i')"
        using h3[of i'] t1i t1o[of i'] by (cases "i' = i_index") simp_all
    qed
    have oth: "\<forall>i'. i' \<noteq> i_index \<longrightarrow> t' ! i' = table ! i'"
      using h4 t1o by simp
    have kj: "known s' (parts ! i_index) (parts ! j_index) (t' ! i_index ! j_index)"
    proof -
      have "t' ! i_index ! j_index = cv1"
        using h5[of j_index] t1i True "1.prems"(3) by simp
      moreover have "known s' (parts ! i_index) (parts ! j_index) cv1"
        using known_extends[OF h1 char_value_known[OF c]] .
      ultimately show ?thesis by simp
    qed
    have k: "\<forall>j'. j_index \<le> j' \<and> j' < length parts \<longrightarrow> known s' (parts ! i_index) (parts ! j') (t' ! i_index ! j')"
    proof (intro allI impI)
      fix j' assume a: "j_index \<le> j' \<and> j' < length parts"
      show "known s' (parts ! i_index) (parts ! j') (t' ! i_index ! j')"
      proof (cases "j' = j_index")
        case True with kj show ?thesis by simp
      next
        case False with a show ?thesis using h6[of j'] by simp
      qed
    qed
    have old: "\<forall>j'. j' < j_index \<longrightarrow> t' ! i_index ! j' = table ! i_index ! j'"
    proof (intro allI impI)
      fix j' assume "j' < j_index"
      then show "t' ! i_index ! j' = table ! i_index ! j'" using h5[of j'] t1i by simp
    qed
    have l: "length t' = length table" using h2 t1l by simp
    from e l len oth old k show ?thesis by blast
  qed
qed

lemma table_rows_first:
  "table_rows s ps i t = Some (Inr (t', s')) \<Longrightarrow> length t = length ps \<Longrightarrow>
   \<forall>i'<length ps. length (t ! i') = length ps \<Longrightarrow>
   cache_extends s s' \<and> length t' = length ps
   \<and> (\<forall>i'<length ps. length (t' ! i') = length ps)
   \<and> (\<forall>i' j'. i \<le> i' \<and> i' < length ps \<and> j' < length ps \<longrightarrow> known s' (ps ! i') (ps ! j') (t' ! i' ! j'))
   \<and> (\<forall>i'. i' < i \<longrightarrow> t' ! i' = t ! i')"
proof (induction s ps i t rule: table_rows.induct)
  case (1 self parts i_index table)
  show ?case
  proof (cases "i_index < length parts")
    case False
    with "1.prems" show ?thesis by (subst (asm) table_rows.simps) auto
  next
    case True
    from True "1.prems"(1) obtain t1 s1 where
      c: "table_row self parts i_index 0 table = Some (Inr (t1, s1))"
      and r: "table_rows s1 parts (i_index + 1) t1 = Some (Inr (t', s'))"
      by (subst (asm) table_rows.simps) (auto split: option.splits sum.splits)
    have i_lt: "i_index < length table" and li: "length (table ! i_index) = length parts"
      using True "1.prems"(2,3) by simp_all
    note row = table_row_first[OF c i_lt li]
    note r1 = row[THEN conjunct1, rule_format] and r2 = row[THEN conjunct2, THEN conjunct1, rule_format] and r3 = row[THEN conjunct2, THEN conjunct2, THEN conjunct1, rule_format] and r4 = row[THEN conjunct2, THEN conjunct2, THEN conjunct2, THEN conjunct1, rule_format] and r5 = row[THEN conjunct2, THEN conjunct2, THEN conjunct2, THEN conjunct2, THEN conjunct2, rule_format]
    have l1: "length t1 = length parts" using r2 "1.prems"(2) by simp
    have l2: "\<forall>i'<length parts. length (t1 ! i') = length parts"
      using "1.prems"(3) by (simp add: r3)
    have r5': "j' < length parts \<Longrightarrow> known s1 (parts ! i_index) (parts ! j') (t1 ! i_index ! j')" for j'
      using r5[of j'] by simp
    note ih = "1.IH"[OF True c refl refl r l1 l2]
    note h1 = ih[THEN conjunct1, rule_format] and h2 = ih[THEN conjunct2, THEN conjunct1, rule_format] and h3 = ih[THEN conjunct2, THEN conjunct2, THEN conjunct1] and h4 = ih[THEN conjunct2, THEN conjunct2, THEN conjunct2, THEN conjunct1, rule_format] and h5 = ih[THEN conjunct2, THEN conjunct2, THEN conjunct2, THEN conjunct2, rule_format]
    have e: "cache_extends self s'"
      using r1 h1 by (rule cache_extends_trans)
    have k: "\<forall>i' j'. i_index \<le> i' \<and> i' < length parts \<and> j' < length parts \<longrightarrow> known s' (parts ! i') (parts ! j') (t' ! i' ! j')"
    proof (intro allI impI)
      fix i' j' assume a: "i_index \<le> i' \<and> i' < length parts \<and> j' < length parts"
      show "known s' (parts ! i') (parts ! j') (t' ! i' ! j')"
      proof (cases "i' = i_index")
        case True
        have "t' ! i_index = t1 ! i_index" using h5[of i_index] by simp
        moreover have "known s' (parts ! i_index) (parts ! j') (t1 ! i_index ! j')"
          using known_extends[OF h1 r5'] a by simp
        ultimately show ?thesis using True by simp
      next
        case False
        with a show ?thesis using h4[of i' j'] by simp
      qed
    qed
    have old: "\<forall>i'. i' < i_index \<longrightarrow> t' ! i' = table ! i'"
    proof (intro allI impI)
      fix i' assume "i' < i_index"
      then show "t' ! i' = table ! i'" using h5[of i'] r4[of i'] by simp
    qed
    from e h2 h3 k old show ?thesis by blast
  qed
qed

lemma table_row_known:
  "\<forall>j'. j \<le> j' \<and> j' < length ps \<longrightarrow> known s (ps ! i) (ps ! j') (T ! i ! j') \<Longrightarrow>
   i < length t \<Longrightarrow> length (t ! i) = length ps \<Longrightarrow> length (T ! i) = length ps \<Longrightarrow> j \<le> length ps \<Longrightarrow>
   table_row s ps i j t = Some (Inr (t[i := take j (t ! i) @ drop j (T ! i)], s))"
proof (induction s ps i j t rule: table_row.induct)
  case (1 self parts i_index j_index table)
  show ?case
  proof (cases "j_index < length parts")
    case False
    with "1.prems" have "j_index = length parts" by simp
    with "1.prems" show ?thesis by (subst table_row.simps) simp
  next
    case True
    define cv where "cv = T ! i_index ! j_index"
    define t1 where "t1 = table[i_index := (table ! i_index)[j_index := cv]]"
    have c: "char_value self (parts ! i_index) (parts ! j_index) = Some (Inr (cv, self))"
      using "1.prems"(1) True by (simp add: known_char_value cv_def)
    have t1i: "t1 ! i_index = (table ! i_index)[j_index := cv]"
      using "1.prems"(2) by (simp add: t1_def)
    have "table_row self parts i_index (j_index + 1) t1
        = Some (Inr (t1[i_index := take (j_index + 1) (t1 ! i_index) @ drop (j_index + 1) (T ! i_index)], self))"
      using "1.IH"[OF True c refl refl] "1.prems" True t1i by (simp add: t1_def)
    moreover have "take (j_index + 1) (t1 ! i_index) @ drop (j_index + 1) (T ! i_index)
        = take j_index (table ! i_index) @ drop j_index (T ! i_index)"
      using True "1.prems"(3,4)
      by (simp add: t1i take_Suc_conv_app_nth cv_def Cons_nth_drop_Suc)
    ultimately have "table_row self parts i_index (j_index + 1) t1
        = Some (Inr (table[i_index := take j_index (table ! i_index) @ drop j_index (T ! i_index)], self))"
      by (simp add: t1_def)
    then show ?thesis using True c by (subst table_row.simps) (simp add: t1_def)
  qed
qed

lemma table_rows_known:
  "\<forall>i' j'. i \<le> i' \<and> i' < length ps \<and> j' < length ps \<longrightarrow> known s (ps ! i') (ps ! j') (T ! i' ! j') \<Longrightarrow>
   length t = length ps \<Longrightarrow> length T = length ps \<Longrightarrow>
   \<forall>i'<length ps. length (t ! i') = length ps \<Longrightarrow>
   \<forall>i'<length ps. length (T ! i') = length ps \<Longrightarrow> i \<le> length ps \<Longrightarrow>
   table_rows s ps i t = Some (Inr (take i t @ drop i T, s))"
proof (induction s ps i t rule: table_rows.induct)
  case (1 self parts i_index table)
  show ?case
  proof (cases "i_index < length parts")
    case False
    with "1.prems" have "i_index = length parts" by simp
    with "1.prems" show ?thesis by (subst table_rows.simps) simp
  next
    case True
    define t1 where "t1 = table[i_index := T ! i_index]"
    have c: "table_row self parts i_index 0 table = Some (Inr (t1, self))"
      using table_row_known[of 0 parts self i_index T table] "1.prems" True by (simp add: t1_def)
    have "table_rows self parts (i_index + 1) t1 = Some (Inr (take (i_index + 1) t1 @ drop (i_index + 1) T, self))"
    proof (rule "1.IH"[OF True c refl refl])
      show "\<forall>i'<length parts. length (t1 ! i') = length parts"
        using "1.prems" True by (auto simp: t1_def nth_list_update)
    qed (use "1.prems" True in \<open>simp_all add: t1_def\<close>)
    moreover have "take (i_index + 1) t1 @ drop (i_index + 1) T = take i_index table @ drop i_index T"
      using True "1.prems"(2,3)
      by (simp add: t1_def take_Suc_conv_app_nth Cons_nth_drop_Suc)
    ultimately show ?thesis using True c by (subst table_rows.simps) simp
  qed
qed

lemma calc_loop_done: "\<not> length (calc_loop parts n) < uadd n 1"
proof (induction parts n rule: calc_loop.induct)
  case (1 parts n)
  then show ?case by (subst calc_loop.simps) simp
qed

lemma calc_loop_idem: "calc_loop (calc_loop parts n) n = calc_loop parts n"
  using calc_loop_done[of parts n] by (subst calc_loop.simps) simp

text \<open>
  C8.  When \<open>character_table self n\<close> returns a table and leaves the state \<open>self'\<close>, the
  same call in \<open>self'\<close> returns the same table and leaves \<open>self'\<close> as it is; every entry
  is \<open>known\<close> in \<open>self'\<close>, so \<open>char_value\<close> returns it from the base case or from the
  cache (lemma \<open>known_char_value\<close>) and computes nothing.
\<close>

theorem character_table_twice:
  assumes "character_table self n = Some (Inr (table, self'))"
  shows "character_table self' n = Some (Inr (table, self'))
    \<and> (\<exists>ps. calculate_partitions self' n = Inr (ps, self')
          \<and> (\<forall>i j. i < length ps \<and> j < length ps \<longrightarrow>
                known self' (ps ! i) (ps ! j) (table ! i ! j)
                \<and> char_value self' (ps ! i) (ps ! j) = Some (Inr (table ! i ! j, self'))))"
proof -
  define t0 :: "Partition list \<Rightarrow> int list list" where "t0 ps = replicate (length ps) (replicate (length ps) 0)" for ps
  from assms obtain ps s1 where
    cp: "calculate_partitions self n = Inr (ps, s1)"
    and tr: "table_rows s1 ps 0 (t0 ps) = Some (Inr (table, self'))"
    by (auto simp: character_table_def t0_def split: sum.splits)
  define parts where "parts = calc_loop (partitions self) n"
  from cp have n: "n < length parts" and ps: "ps = parts ! n" and s1: "partitions s1 = parts"
    by (auto simp: calculate_partitions_def Let_def parts_def split: if_splits)
  have first: "cache_extends s1 self' \<and> length table = length ps
     \<and> (\<forall>i'<length ps. length (table ! i') = length ps)
     \<and> (\<forall>i' j'. 0 \<le> i' \<and> i' < length ps \<and> j' < length ps \<longrightarrow> known self' (ps ! i') (ps ! j') (table ! i' ! j'))
     \<and> (\<forall>i'. i' < 0 \<longrightarrow> table ! i' = t0 ps ! i')"
    by (rule table_rows_first[OF tr]) (simp_all add: t0_def)
  then have p': "partitions self' = parts" using s1 by (simp add: cache_extends_def)
  have cp': "calculate_partitions self' n = Inr (ps, self')"
    using n by (simp add: calculate_partitions_def p' parts_def calc_loop_idem ps Let_def)
  have "table_rows self' ps 0 (t0 ps) = Some (Inr (take 0 (t0 ps) @ drop 0 table, self'))"
    by (rule table_rows_known) (use first in \<open>simp_all add: t0_def\<close>)
  then have "character_table self' n = Some (Inr (table, self'))"
    by (simp add: character_table_def cp' t0_def)
  moreover have "\<forall>i j. i < length ps \<and> j < length ps \<longrightarrow>
                known self' (ps ! i) (ps ! j) (table ! i ! j)
                \<and> char_value self' (ps ! i) (ps ! j) = Some (Inr (table ! i ! j, self'))"
    using first known_char_value by simp
  ultimately show ?thesis using cp' by blast
qed

theorem character_table_twice_witness:
  "\<exists>table self'. character_table CharTable_init 3 = Some (Inr (table, self'))
      \<and> character_table self' 3 = Some (Inr (table, self'))"
proof -
  obtain table self' where c: "character_table CharTable_init 3 = Some (Inr (table, self'))"
    apply (simp add: character_table_def calculate_partitions_3)
    apply (simp add: gbs_eval cv_eval CharTable_init_def)
    done
  from character_table_twice[OF c] c show ?thesis by blast
qed

section \<open>get_border_strips on partitions\<close>

subsection \<open>Machine arithmetic within its range\<close>

lemma to_int_small: "x < 2 ^ 31 \<Longrightarrow> to_int x = int x"
  by (simp add: to_int_def)

lemma usub_exact: "b \<le> a \<Longrightarrow> a < 2 ^ 64 \<Longrightarrow> usub a b = a - b"
  by (simp add: usub_def mod_if)

lemma uadd_exact: "a + b < 2 ^ 64 \<Longrightarrow> uadd a b = a + b"
  by (simp add: uadd_def)

lemma to_size_exact: "0 \<le> i \<Longrightarrow> i < 2 ^ 64 \<Longrightarrow> to_size i = nat i"
  by (simp add: to_size_def)

subsection \<open>The inner loops\<close>

lemma down_run_spec:
  assumes "length xi = length lam" "\<forall>i<length lam. row \<le> i \<longrightarrow> xi ! i + 1 < 2 ^ 64"
  shows "case down_run lam p row xi bs of (xi', row', bs') \<Rightarrow>
           (row \<le> length lam \<longrightarrow> row \<le> row' \<and> row' \<le> length lam)
           \<and> (\<forall>i. row \<le> i \<and> i < row' \<longrightarrow> lam ! i = lam ! p)
           \<and> (row' < length lam \<longrightarrow> lam ! row' \<noteq> lam ! p)
           \<and> length xi' = length xi
           \<and> (\<forall>i<length xi. xi' ! i = (if row \<le> i \<and> i < row' then xi ! i + 1 else xi ! i))
           \<and> bs' = bs - int (row' - row)
           \<and> (row \<le> length lam \<longrightarrow> sum_list xi' = sum_list xi + (row' - row))"
  using assms
proof (induction lam p row xi bs rule: down_run.induct)
  case (1 lam prev_row row xi bs_length)
  show ?case
  proof (cases "row < length lam \<and> lam ! row = lam ! prev_row")
    case False
    then show ?thesis by (subst down_run.simps) auto
  next
    case True
    define xi1 where "xi1 = xi[row := uadd (xi ! row) 1]"
    have x1: "xi1 = xi[row := xi ! row + 1]"
      using True "1.prems" by (simp add: xi1_def uadd_exact)
    obtain xi' row' bs' where d: "down_run lam prev_row (row + 1) xi1 (bs_length - 1) = (xi', row', bs')"
      by (cases "down_run lam prev_row (row + 1) xi1 (bs_length - 1)") auto
    have l1: "length xi1 = length lam" using "1.prems" by (simp add: xi1_def)
    have ihp: "\<forall>i<length lam. row + 1 \<le> i \<longrightarrow> xi1 ! i + 1 < 2 ^ 64"
      using "1.prems" by (simp add: x1)
    have ih: "(row + 1 \<le> length lam \<longrightarrow> row + 1 \<le> row' \<and> row' \<le> length lam)
           \<and> (\<forall>i. row + 1 \<le> i \<and> i < row' \<longrightarrow> lam ! i = lam ! prev_row)
           \<and> (row' < length lam \<longrightarrow> lam ! row' \<noteq> lam ! prev_row)
           \<and> length xi' = length xi1
           \<and> (\<forall>i<length xi1. xi' ! i = (if row + 1 \<le> i \<and> i < row' then xi1 ! i + 1 else xi1 ! i))
           \<and> bs' = bs_length - 1 - int (row' - (row + 1))
           \<and> (row + 1 \<le> length lam \<longrightarrow> sum_list xi' = sum_list xi1 + (row' - (row + 1)))"
      using "1.IH"[OF True l1[unfolded xi1_def] ihp[unfolded xi1_def]] d by (simp add: xi1_def)
    note h1 = ih[THEN conjunct1, rule_format]
      and h2 = ih[THEN conjunct2, THEN conjunct1, rule_format]
      and h3 = ih[THEN conjunct2, THEN conjunct2, THEN conjunct1, rule_format]
      and h4 = ih[THEN conjunct2, THEN conjunct2, THEN conjunct2, THEN conjunct1]
      and h5 = ih[THEN conjunct2, THEN conjunct2, THEN conjunct2, THEN conjunct2, THEN conjunct1, rule_format]
      and h6 = ih[THEN conjunct2, THEN conjunct2, THEN conjunct2, THEN conjunct2, THEN conjunct2, THEN conjunct1]
      and h7 = ih[THEN conjunct2, THEN conjunct2, THEN conjunct2, THEN conjunct2, THEN conjunct2, THEN conjunct2, rule_format]
    have rr: "row + 1 \<le> row'" "row' \<le> length lam" using h1 True by simp_all
    have eq: "down_run lam prev_row row xi bs_length = (xi', row', bs')"
      using True d by (subst down_run.simps) (simp add: xi1_def)
    have c2: "\<forall>i. row \<le> i \<and> i < row' \<longrightarrow> lam ! i = lam ! prev_row"
    proof (intro allI impI)
      fix i assume "row \<le> i \<and> i < row'"
      then show "lam ! i = lam ! prev_row" using h2[of i] True by (cases "i = row") simp_all
    qed
    have c5: "\<forall>i<length xi. xi' ! i = (if row \<le> i \<and> i < row' then xi ! i + 1 else xi ! i)"
    proof (intro allI impI)
      fix i assume i: "i < length xi"
      then have "xi' ! i = (if row + 1 \<le> i \<and> i < row' then xi1 ! i + 1 else xi1 ! i)"
        using h5[of i] l1 "1.prems"(1) by simp
      then show "xi' ! i = (if row \<le> i \<and> i < row' then xi ! i + 1 else xi ! i)"
        using rr i by (cases "i = row") (simp_all add: x1)
    qed
    have s1: "sum_list xi1 = sum_list xi + 1"
      using True "1.prems"(1) by (simp add: x1 sum_list_update)
    have c7: "sum_list xi' = sum_list xi + (row' - row)"
      using h7 s1 rr True by simp
    have c6: "bs' = bs_length - int (row' - row)" using h6 rr by simp
    have c4: "length xi' = length xi" using h4 l1 "1.prems"(1) by simp
    show ?thesis unfolding eq using rr c2 h3 c4 c5 c6 c7 by simp
  qed
qed

lemma dec_rows_spec:
  "row \<le> length lam \<Longrightarrow>
   length (dec_rows lam index row) = length lam
   \<and> (\<forall>i<length lam. dec_rows lam index row ! i =
         (if index \<le> i \<and> i < row then usub (lam ! i) 1 else lam ! i))"
proof (induction lam index row rule: dec_rows.induct)
  case (1 lam index row)
  show ?case
  proof (cases "index < row")
    case False
    then show ?thesis by (subst dec_rows.simps, subst (2) dec_rows.simps) simp
  next
    case True
    define lam1 where "lam1 = lam[index := usub (lam ! index) 1]"
    have ih: "length (dec_rows lam1 (index + 1) row) = length lam1
       \<and> (\<forall>i<length lam1. dec_rows lam1 (index + 1) row ! i =
             (if index + 1 \<le> i \<and> i < row then usub (lam1 ! i) 1 else lam1 ! i))"
      using "1.IH"[OF True] "1.prems" by (simp add: lam1_def)
    have eq: "dec_rows lam index row = dec_rows lam1 (index + 1) row"
      using True by (subst dec_rows.simps) (simp add: lam1_def)
    have "\<forall>i<length lam. dec_rows lam1 (index + 1) row ! i =
         (if index \<le> i \<and> i < row then usub (lam ! i) 1 else lam ! i)"
    proof (intro allI impI)
      fix i assume i: "i < length lam"
      then have "dec_rows lam1 (index + 1) row ! i =
             (if index + 1 \<le> i \<and> i < row then usub (lam1 ! i) 1 else lam1 ! i)"
        using ih by (simp add: lam1_def)
      then show "dec_rows lam1 (index + 1) row ! i =
         (if index \<le> i \<and> i < row then usub (lam ! i) 1 else lam ! i)"
        using True i by (cases "i = index") (simp_all add: lam1_def)
    qed
    then show ?thesis unfolding eq using ih by (simp add: lam1_def)
  qed
qed

subsection \<open>The loop invariant\<close>

lemma partition_nth_pos: "is_partition L \<Longrightarrow> i < length L \<Longrightarrow> 0 < L ! i"
  by (simp add: is_partition_def positive_parts_def)

lemma partition_nth_mono: "is_partition L \<Longrightarrow> i \<le> j \<Longrightarrow> j < length L \<Longrightarrow> L ! j \<le> L ! i"
  by (cases "i = j") (simp_all add: is_partition_def non_increasing_def sorted_wrt_iff_nth_less)

lemma fits_int_nth: "fits_int L \<Longrightarrow> i < length L \<Longrightarrow> L ! i < 2 ^ 31"
  by (simp add: fits_int_def)

lemma non_increasing_Suc: 
  "non_increasing xs \<longleftrightarrow> (\<forall>i. Suc i < length xs \<longrightarrow> xs ! Suc i \<le> xs ! i)"
  unfolding non_increasing_def
  by (rule sorted_wrt_iff_nth_Suc_transp) (simp add: transp_def)

lemma gbs_invD:
  assumes "gbs_inv L m lam xi row fnz bs"
  shows "length lam = length L" and "length xi = length L"
    and "\<And>i. i < length L \<Longrightarrow> lam ! i + xi ! i = L ! i"
    and "fnz \<le> row" and "row \<le> length L"
    and "\<And>i. i < length L \<Longrightarrow> i < chain_start xi row fnz \<or> row < i \<Longrightarrow> xi ! i = 0"
    and "\<And>i. chain_start xi row fnz \<le> i \<Longrightarrow> i < row \<Longrightarrow> row < length L \<and> lam ! i + 1 = L ! (i + 1)"
    and "chain_start xi row fnz < row \<Longrightarrow> 1 \<le> xi ! row"
    and "row + 1 < length L \<Longrightarrow> L ! (row + 1) \<le> lam ! row"
    and "bs + int (sum_list xi) = m"
proof -
  note a = assms[unfolded gbs_inv_def]
  show "length lam = length L" using a[THEN conjunct1] .
  show "length xi = length L" using a[THEN conjunct2, THEN conjunct1] .
  show "\<And>i. i < length L \<Longrightarrow> lam ! i + xi ! i = L ! i"
    using a[THEN conjunct2, THEN conjunct2, THEN conjunct1, rule_format] .
  show "fnz \<le> row" using a[THEN conjunct2, THEN conjunct2, THEN conjunct2, THEN conjunct1] .
  show "row \<le> length L"
    using a[THEN conjunct2, THEN conjunct2, THEN conjunct2, THEN conjunct2, THEN conjunct1] .
  show "\<And>i. i < length L \<Longrightarrow> i < chain_start xi row fnz \<or> row < i \<Longrightarrow> xi ! i = 0"
    using a[THEN conjunct2, THEN conjunct2, THEN conjunct2, THEN conjunct2, THEN conjunct2,
        THEN conjunct1, rule_format] .
  show "\<And>i. chain_start xi row fnz \<le> i \<Longrightarrow> i < row \<Longrightarrow> row < length L \<and> lam ! i + 1 = L ! (i + 1)"
    using a[THEN conjunct2, THEN conjunct2, THEN conjunct2, THEN conjunct2, THEN conjunct2,
        THEN conjunct2, THEN conjunct1, rule_format] by blast
  show "chain_start xi row fnz < row \<Longrightarrow> 1 \<le> xi ! row"
    using a[THEN conjunct2, THEN conjunct2, THEN conjunct2, THEN conjunct2, THEN conjunct2,
        THEN conjunct2, THEN conjunct2, THEN conjunct1, rule_format] .
  show "row + 1 < length L \<Longrightarrow> L ! (row + 1) \<le> lam ! row"
    using a[THEN conjunct2, THEN conjunct2, THEN conjunct2, THEN conjunct2, THEN conjunct2,
        THEN conjunct2, THEN conjunct2, THEN conjunct2, THEN conjunct1, rule_format] .
  show "bs + int (sum_list xi) = m"
    using a[THEN conjunct2, THEN conjunct2, THEN conjunct2, THEN conjunct2, THEN conjunct2,
        THEN conjunct2, THEN conjunct2, THEN conjunct2, THEN conjunct2] .
qed

lemma gbs_invI:
  assumes "length lam = length L" and "length xi = length L"
    and "\<And>i. i < length L \<Longrightarrow> lam ! i + xi ! i = L ! i"
    and "fnz \<le> row" and "row \<le> length L"
    and "\<And>i. i < length L \<Longrightarrow> i < chain_start xi row fnz \<or> row < i \<Longrightarrow> xi ! i = 0"
    and "\<And>i. chain_start xi row fnz \<le> i \<Longrightarrow> i < row \<Longrightarrow> row < length L \<and> lam ! i + 1 = L ! (i + 1)"
    and "chain_start xi row fnz < row \<Longrightarrow> 1 \<le> xi ! row"
    and "row + 1 < length L \<Longrightarrow> L ! (row + 1) \<le> lam ! row"
    and "bs + int (sum_list xi) = m"
  shows "gbs_inv L m lam xi row fnz bs"
  unfolding gbs_inv_def
proof (intro conjI allI impI)
  fix i assume "chain_start xi row fnz \<le> i \<and> i < row"
  then show "row < length L" "lam ! i + 1 = L ! (i + 1)" using assms(7)[of i] by simp_all
qed (use assms in \<open>simp_all\<close>)

lemma sub_le_input:
  assumes "gbs_inv L m lam xi row fnz bs" "i < length L"
  shows "lam ! i \<le> L ! i" "xi ! i \<le> L ! i"
  using gbs_invD(3)[OF assms] by simp_all

text \<open>The pair emitted when the counter is 0.\<close>

lemma emitted_non_increasing:
  assumes P: "is_partition L" and inv: "gbs_inv L m lam xi row fnz bs" and r: "row < length L"
  shows "non_increasing lam"
  unfolding non_increasing_Suc
proof (intro allI impI)
  fix i assume "Suc i < length lam"
  then have i: "Suc i < length L" using gbs_invD(1)[OF inv] by simp
  let ?s = "chain_start xi row fnz"
  have le: "lam ! Suc i \<le> L ! Suc i" using sub_le_input(1)[OF inv i] .
  consider "i < ?s" | "?s \<le> i" "i < row" | "i = row" | "row < i" by linarith
  then show "lam ! Suc i \<le> lam ! i"
  proof cases
    case 1
    then have "xi ! i = 0" using gbs_invD(6)[OF inv, of i] i by simp
    then have "lam ! i = L ! i" using gbs_invD(3)[OF inv, of i] i by simp
    moreover have "L ! Suc i \<le> L ! i" using partition_nth_mono[OF P, of i "Suc i"] i by simp
    ultimately show ?thesis using le by simp
  next
    case 2
    then have c: "lam ! i + 1 = L ! (i + 1)" using gbs_invD(7)[OF inv, of i] by simp
    have "1 \<le> xi ! Suc i"
    proof (cases "Suc i < row")
      case True
      then have "lam ! Suc i + 1 = L ! (Suc i + 1)" using gbs_invD(7)[OF inv, of "Suc i"] 2 by simp
      moreover have "L ! (Suc i + 1) \<le> L ! Suc i"
        using partition_nth_mono[OF P, of "Suc i" "Suc i + 1"] True r by simp
      ultimately show ?thesis using gbs_invD(3)[OF inv, of "Suc i"] i by simp
    next
      case False
      then have "Suc i = row" using 2 by simp
      then show ?thesis using gbs_invD(8)[OF inv] 2 by simp
    qed
    then show ?thesis using c gbs_invD(3)[OF inv, of "Suc i"] i by simp
  next
    case 3
    then have "L ! (row + 1) \<le> lam ! row" using gbs_invD(9)[OF inv] i by simp
    then show ?thesis using 3 le by simp
  next
    case 4
    then have "xi ! i = 0" using gbs_invD(6)[OF inv, of i] i by simp
    then have "lam ! i = L ! i" using gbs_invD(3)[OF inv, of i] i by simp
    moreover have "L ! Suc i \<le> L ! i" using partition_nth_mono[OF P, of i "Suc i"] i by simp
    ultimately show ?thesis using le by simp
  qed
qed

lemma non_increasing_nth: "non_increasing xs \<Longrightarrow> i \<le> j \<Longrightarrow> j < length xs \<Longrightarrow> xs ! j \<le> xs ! i"
  by (cases "i = j") (simp_all add: non_increasing_def sorted_wrt_iff_nth_less)

lemma emitted_connected:
  assumes P: "is_partition L" and inv: "gbs_inv L m lam xi row fnz bs" and r: "row < length L"
  shows "connected_strip L lam"
  unfolding connected_strip_def
proof (intro allI impI)
  fix i k q
  assume a: "i < k \<and> k < length L \<and> lam ! i < L ! i \<and> lam ! k < L ! k" and q: "i \<le> q \<and> q < k"
  let ?s = "chain_start xi row fnz"
  have "xi ! i \<noteq> 0" using a gbs_invD(3)[OF inv, of i] by simp
  then have si: "?s \<le> i" using gbs_invD(6)[OF inv, of i] a by force
  have "xi ! k \<noteq> 0" using a gbs_invD(3)[OF inv, of k] by simp
  then have kr: "k \<le> row" using gbs_invD(6)[OF inv, of k] a by force
  have c: "lam ! q + 1 = L ! (q + 1)" using gbs_invD(7)[OF inv, of q] si kr q by simp
  have q1: "q + 1 < length L" using q a by simp
  have "L ! (q + 1) \<le> L ! q" using partition_nth_mono[OF P, of q "q + 1"] q1 by simp
  then have 1: "cell L lam q (lam ! q)" using c q1 by (simp add: cell_def)
  have "lam ! (q + 1) \<le> lam ! q"
    using non_increasing_nth[OF emitted_non_increasing[OF P inv r], of q "q + 1"] q1 gbs_invD(1)[OF inv]
    by simp
  then have 2: "cell L lam (q + 1) (lam ! q)" using c q1 by (simp add: cell_def)
  from 1 2 show "\<exists>c. cell L lam q c \<and> cell L lam (q + 1) c" by blast
qed

lemma emitted_no_2x2:
  assumes P: "is_partition L" and inv: "gbs_inv L m lam xi row fnz bs" and r: "row < length L"
  shows "no_2x2 L lam"
  unfolding no_2x2_def
proof (intro notI, elim exE conjE)
  fix i j
  assume c1: "cell L lam i j" and c4: "cell L lam (i + 1) (j + 1)" and c3: "cell L lam (i + 1) j"
  let ?s = "chain_start xi row fnz"
  have i1: "i + 1 < length L" and big: "lam ! i + 1 < L ! (i + 1)"
    using c1 c4 by (simp_all add: cell_def)
  consider "i < ?s" | "?s \<le> i" "i < row" | "row \<le> i" by linarith
  then show False
  proof cases
    case 1
    then have "xi ! i = 0" using gbs_invD(6)[OF inv, of i] i1 by simp
    then have "lam ! i = L ! i" using gbs_invD(3)[OF inv, of i] i1 by simp
    moreover have "L ! (i + 1) \<le> L ! i" using partition_nth_mono[OF P, of i "i + 1"] i1 by simp
    ultimately show False using big by simp
  next
    case 2
    then have "lam ! i + 1 = L ! (i + 1)" using gbs_invD(7)[OF inv, of i] by simp
    then show False using big by simp
  next
    case 3
    then have "xi ! (i + 1) = 0" using gbs_invD(6)[OF inv, of "i + 1"] i1 by simp
    then have "lam ! (i + 1) = L ! (i + 1)" using gbs_invD(3)[OF inv, of "i + 1"] i1 by simp
    then show False using c3 by (auto simp: cell_def)
  qed
qed

lemma emitted_pair_ok:
  assumes P: "is_partition L" and inv: "gbs_inv L m lam xi row fnz 0" and r: "row < length L"
  shows "border_strip_removed L m \<lparr>sub_partition = lam, border_strip = xi\<rparr>"
proof -
  have "non_increasing (correct_partition lam)"
    using emitted_non_increasing[OF P inv r]
    by (simp add: non_increasing_def correct_partition_def sorted_wrt_filter)
  then have "is_partition (correct_partition lam)"
    by (simp add: is_partition_def correct_partition_def positive_parts_def)
  then show ?thesis
    unfolding border_strip_removed_def
    using gbs_invD(1,2,3,10)[OF inv] emitted_connected[OF P inv r] emitted_no_2x2[OF P inv r]
    by simp
qed

lemma chain_start_cases: "chain_start xi row fnz = fnz \<or> chain_start xi row fnz = fnz + 1"
  by (simp add: chain_start_def)

lemma chain_start_le: "fnz \<le> chain_start xi row fnz"
  by (simp add: chain_start_def)

lemma sum_list_zero_at:
  "k < length xs \<Longrightarrow> int (sum_list (xs[k := 0])) + int (xs ! k) = int (sum_list (xs :: nat list))"
  using elem_le_sum_list[of k xs] by (simp add: sum_list_update)

lemma emit_inv:
  assumes P: "is_partition L" and F: "fits_int L"
    and inv: "gbs_inv L m lam xi row fnz 0" and r: "row < length L"
  shows "\<exists>lam' xi' row' fnz' bs'.
           emit lam xi row fnz 0 res
             = Next lam' xi' row' fnz' bs' (res @ [\<lparr>sub_partition = lam, border_strip = xi\<rparr>])
           \<and> gbs_inv L m lam' xi' row' fnz' bs'
           \<and> (row' = row + 1 \<or>
               (row' = row \<and> (bs' = 0 \<or> (chain_flag xi row fnz = 1 \<and> chain_flag xi' row' fnz' = 0))))"
proof -
  note d = gbs_invD[OF inv]
  have f: "fnz < length L" using d(4) r by simp
  define lam' where "lam' = lam[fnz := uadd (lam ! fnz) (xi ! fnz)]"
  define xi' where "xi' = xi[fnz := 0]"
  have lf: "lam ! fnz + xi ! fnz = L ! fnz" using d(3)[OF f] .
  have small: "xi ! fnz < 2 ^ 31" using lf fits_int_nth[OF F f] by simp
  have lam'_eq: "lam' = lam[fnz := L ! fnz]"
    using lf fits_int_nth[OF F f] by (simp add: lam'_def uadd_exact)
  have b': "0 + to_int (xi ! fnz) = int (xi ! fnz)" using small by (simp add: to_int_small)
  have len: "length lam' = length L" "length xi' = length L"
    using d(1,2) by (simp_all add: lam'_def xi'_def)
  have rows: "lam' ! i + xi' ! i = L ! i" if "i < length L" for i
    using that d(1,2) d(3)[OF that] by (cases "i = fnz") (simp_all add: lam'_eq xi'_def)
  have sum: "int (xi ! fnz) + int (sum_list xi') = m"
    using sum_list_zero_at[of fnz xi] f d(2) d(10) by (simp add: xi'_def)
  have em: "emit lam xi row fnz 0 res =
      Next lam' xi' (if row = fnz then row + 1 else row) (if row = fnz then fnz + 1 else fnz)
        (int (xi ! fnz)) (res @ [\<lparr>sub_partition = lam, border_strip = xi\<rparr>])"
    using f d(1) b' by (simp add: emit_def lam'_def xi'_def)
  show ?thesis
  proof (cases "row = fnz")
    case True
    have cs: "chain_start xi row fnz = fnz" using True by (simp add: chain_start_def)
    have cs': "chain_start xi' (row + 1) (fnz + 1) = fnz + 1" using True by (simp add: chain_start_def)
    have z: "xi' ! i = 0" if "i < length L" "i < fnz + 1 \<or> row + 1 < i" for i
    proof (cases "i = fnz")
      case True then show ?thesis using f d(2) by (simp add: xi'_def)
    next
      case False
      then have "xi ! i = 0" using d(6)[of i] that cs \<open>row = fnz\<close> by auto
      then show ?thesis using False by (simp add: xi'_def)
    qed
    have nxt: "L ! (row + 1 + 1) \<le> lam' ! (row + 1)" if "row + 1 + 1 < length L"
    proof -
      have "xi ! (row + 1) = 0" using d(6)[of "row + 1"] that by simp
      then have "lam ! (row + 1) = L ! (row + 1)" using d(3)[of "row + 1"] that by simp
      moreover have "L ! (row + 1 + 1) \<le> L ! (row + 1)"
        using partition_nth_mono[OF P, of "row + 1" "row + 1 + 1"] that by simp
      ultimately show ?thesis using True by (simp add: lam'_eq)
    qed
    have "gbs_inv L m lam' xi' (row + 1) (fnz + 1) (int (xi ! fnz))"
    proof (rule gbs_invI)
      show "length lam' = length L" "length xi' = length L" by (rule len)+
      show "\<And>i. i < length L \<Longrightarrow> lam' ! i + xi' ! i = L ! i" by (rule rows)
      show "fnz + 1 \<le> row + 1" using True by simp
      show "row + 1 \<le> length L" using r by simp
      show "\<And>i. i < length L \<Longrightarrow> i < chain_start xi' (row + 1) (fnz + 1) \<or> row + 1 < i \<Longrightarrow> xi' ! i = 0"
        unfolding cs' by (rule z)
      show "\<And>i. chain_start xi' (row + 1) (fnz + 1) \<le> i \<Longrightarrow> i < row + 1 \<Longrightarrow>
            row + 1 < length L \<and> lam' ! i + 1 = L ! (i + 1)"
        unfolding cs' using True by simp
      show "chain_start xi' (row + 1) (fnz + 1) < row + 1 \<Longrightarrow> 1 \<le> xi' ! (row + 1)"
        unfolding cs' using True by simp
      show "row + 1 + 1 < length L \<Longrightarrow> L ! (row + 1 + 1) \<le> lam' ! (row + 1)" by (rule nxt)
      show "int (xi ! fnz) + int (sum_list xi') = m" by (rule sum)
    qed
    then show ?thesis using em True by simp
  next
    case False
    then have lt: "fnz < row" using d(4) by simp
    have xf: "xi' ! fnz = 0" using f d(2) by (simp add: xi'_def)
    have cs': "chain_start xi' row fnz = fnz + 1" using lt xf by (simp add: chain_start_def)
    have csle: "chain_start xi row fnz \<le> fnz + 1" using chain_start_cases[of xi row fnz] by auto
    have z: "xi' ! i = 0" if "i < length L" "i < fnz + 1 \<or> row < i" for i
    proof (cases "i = fnz")
      case True then show ?thesis using xf by simp
    next
      case False
      then have "i < chain_start xi row fnz \<or> row < i" using that chain_start_le[of fnz xi row] by auto
      then have "xi ! i = 0" using d(6)[of i] that by simp
      then show ?thesis using False by (simp add: xi'_def)
    qed
    have ch: "row < length L \<and> lam' ! i + 1 = L ! (i + 1)" if "fnz + 1 \<le> i" "i < row" for i
    proof -
      have "row < length L \<and> lam ! i + 1 = L ! (i + 1)" using d(7)[of i] that csle by simp
      then show ?thesis using that by (simp add: lam'_eq)
    qed
    have x6: "1 \<le> xi' ! row" if "fnz + 1 < row"
      using d(8) that csle lt by (simp add: xi'_def)
    have x7: "L ! (row + 1) \<le> lam' ! row" if "row + 1 < length L"
      using d(9)[OF that] lt by (simp add: lam'_eq)
    have "gbs_inv L m lam' xi' row fnz (int (xi ! fnz))"
    proof (rule gbs_invI)
      show "length lam' = length L" "length xi' = length L" by (rule len)+
      show "\<And>i. i < length L \<Longrightarrow> lam' ! i + xi' ! i = L ! i" by (rule rows)
      show "fnz \<le> row" using lt by simp
      show "row \<le> length L" using r by simp
      show "\<And>i. i < length L \<Longrightarrow> i < chain_start xi' row fnz \<or> row < i \<Longrightarrow> xi' ! i = 0"
        unfolding cs' by (rule z)
      show "\<And>i. chain_start xi' row fnz \<le> i \<Longrightarrow> i < row \<Longrightarrow>
            row < length L \<and> lam' ! i + 1 = L ! (i + 1)"
        unfolding cs' by (rule ch)
      show "chain_start xi' row fnz < row \<Longrightarrow> 1 \<le> xi' ! row"
        unfolding cs' by (rule x6)
      show "row + 1 < length L \<Longrightarrow> L ! (row + 1) \<le> lam' ! row" by (rule x7)
      show "int (xi ! fnz) + int (sum_list xi') = m" by (rule sum)
    qed
    moreover have "int (xi ! fnz) = 0 \<or> (chain_flag xi row fnz = 1 \<and> chain_flag xi' row fnz = 0)"
      using lt xf by (simp add: chain_flag_def)
    ultimately show ?thesis using em False by simp
  qed
qed

lemma emit_progress:
  assumes P: "is_partition L" and F: "fits_int L"
    and inv: "gbs_inv L m lam1 xi1 row1 fnz1 bs1" and nn: "0 \<le> bs1" and r: "row1 < length L"
    and rel: "row < row1 \<or> (row1 = row \<and> fnz1 = fnz \<and> chain_flag xi1 row fnz = chain_flag xi row fnz \<and> bs1 < bs)"
  shows "gbs_progress L m xi row fnz bs res (emit lam1 xi1 row1 fnz1 bs1 res)"
proof (cases "bs1 = 0")
  case True
  note inv0 = inv[unfolded True]
  from emit_inv[OF P F inv0 r, of res] obtain lam' xi' row' fnz' bs' where
    em: "emit lam1 xi1 row1 fnz1 0 res
             = Next lam' xi' row' fnz' bs' (res @ [\<lparr>sub_partition = lam1, border_strip = xi1\<rparr>])"
    and inv': "gbs_inv L m lam' xi' row' fnz' bs'"
    and pr: "row' = row1 + 1 \<or>
               (row' = row1 \<and> (bs' = 0 \<or> (chain_flag xi1 row1 fnz1 = 1 \<and> chain_flag xi' row' fnz' = 0)))"
    by blast
  have ok: "border_strip_removed L m \<lparr>sub_partition = lam1, border_strip = xi1\<rparr>"
    by (rule emitted_pair_ok[OF P inv0 r])
  have ni: "non_increasing (sub_partition \<lparr>sub_partition = lam1, border_strip = xi1\<rparr>)"
    using emitted_non_increasing[OF P inv0 r] by simp
  have meas: "(gbs_measure (length L) xi' row' fnz' bs', gbs_measure (length L) xi row fnz bs)
                 \<in> less_than <*lex*> less_than <*lex*> less_than"
    if "0 < bs'" "row' < length L"
    using pr rel that r by (auto simp: gbs_measure_def)
  show ?thesis
    unfolding True em gbs_progress_def using inv' ok ni meas by auto
next
  case False
  then have pos: "0 < bs1" using nn by simp
  have em: "emit lam1 xi1 row1 fnz1 bs1 res = Next lam1 xi1 row1 fnz1 bs1 res"
    using False by (simp add: emit_def)
  have "(gbs_measure (length L) xi1 row1 fnz1 bs1, gbs_measure (length L) xi row fnz bs)
                 \<in> less_than <*lex*> less_than <*lex*> less_than"
    using rel r pos by (auto simp: gbs_measure_def)
  then show ?thesis unfolding em gbs_progress_def using inv by simp
qed

lemma take_from_row:
  assumes inv: "gbs_inv L m lam xi row fnz bs" and r: "row < length L"
    and k: "1 \<le> k" "k \<le> lam ! row" and nx: "row + 1 < length L \<Longrightarrow> L ! (row + 1) + k \<le> lam ! row"
  shows "gbs_inv L m (lam[row := lam ! row - k]) (xi[row := xi ! row + k]) row fnz (bs - int k)"
    and "chain_flag (xi[row := xi ! row + k]) row fnz = chain_flag xi row fnz"
proof -
  note d = gbs_invD[OF inv]
  let ?lam = "lam[row := lam ! row - k]" and ?xi = "xi[row := xi ! row + k]"
  have xf: "fnz < row \<Longrightarrow> ?xi ! fnz = xi ! fnz" by simp
  have cs: "chain_start ?xi row fnz = chain_start xi row fnz"
    using xf by (auto simp: chain_start_def)
  show "chain_flag ?xi row fnz = chain_flag xi row fnz"
    using xf by (auto simp: chain_flag_def)
  have rows: "?lam ! i + ?xi ! i = L ! i" if "i < length L" for i
    using that d(1,2) d(3)[OF that] k by (cases "i = row") simp_all
  have z: "?xi ! i = 0" if "i < length L" "i < chain_start xi row fnz \<or> row < i" for i
  proof -
    have "chain_start xi row fnz \<le> row" using d(4) by (simp add: chain_start_def)
    then have "i \<noteq> row" using that by auto
    then show ?thesis using d(6)[OF that] by simp
  qed
  have ch: "row < length L \<and> ?lam ! i + 1 = L ! (i + 1)" if "chain_start xi row fnz \<le> i" "i < row" for i
    using d(7)[OF that] that by simp
  have x6: "1 \<le> ?xi ! row" using k r d(2) by simp
  have x7: "L ! (row + 1) \<le> ?lam ! row" if "row + 1 < length L"
    using nx[OF that] r d(1) by simp
  have sum: "bs - int k + int (sum_list ?xi) = m"
    using d(10) r d(2) elem_le_sum_list[of row xi] by (simp add: sum_list_update)
  show "gbs_inv L m ?lam ?xi row fnz (bs - int k)"
  proof (rule gbs_invI)
    show "length ?lam = length L" "length ?xi = length L" using d(1,2) by simp_all
    show "\<And>i. i < length L \<Longrightarrow> ?lam ! i + ?xi ! i = L ! i" by (rule rows)
    show "fnz \<le> row" by (rule d(4))
    show "row \<le> length L" by (rule d(5))
    show "\<And>i. i < length L \<Longrightarrow> i < chain_start ?xi row fnz \<or> row < i \<Longrightarrow> ?xi ! i = 0"
      unfolding cs by (rule z)
    show "\<And>i. chain_start ?xi row fnz \<le> i \<Longrightarrow> i < row \<Longrightarrow> row < length L \<and> ?lam ! i + 1 = L ! (i + 1)"
      unfolding cs by (rule ch)
    show "chain_start ?xi row fnz < row \<Longrightarrow> 1 \<le> ?xi ! row" using x6 by simp
    show "row + 1 < length L \<Longrightarrow> L ! (row + 1) \<le> ?lam ! row" by (rule x7)
    show "bs - int k + int (sum_list ?xi) = m" by (rule sum)
  qed
qed

lemma machine_take:
  assumes inv: "gbs_inv L m lam xi row fnz bs" and r: "row < length L" and F: "fits_int L"
    and s: "0 \<le> step" "step \<le> int (lam ! row)"
  shows "lam[row := usub (lam ! row) (to_size step)] = lam[row := lam ! row - nat step]"
    and "xi[row := uadd (xi ! row) (to_size step)] = xi[row := xi ! row + nat step]"
proof -
  have b: "lam ! row + xi ! row < 2 ^ 31"
    using gbs_invD(3)[OF inv r] fits_int_nth[OF F r] by simp
  have ts: "to_size step = nat step" using s b by (simp add: to_size_exact)
  show "lam[row := usub (lam ! row) (to_size step)] = lam[row := lam ! row - nat step]"
    using s b by (simp add: ts usub_exact)
  show "xi[row := uadd (xi ! row) (to_size step)] = xi[row := xi ! row + nat step]"
    using s b by (simp add: ts uadd_exact)
qed

lemma body_last:
  assumes P: "is_partition L" and F: "fits_int L"
    and inv: "gbs_inv L m lam xi row fnz bs" and pos: "0 < bs" and last: "row + 1 = length L"
  shows "gbs_progress L m xi row fnz bs res (gbs_body lam xi row fnz bs res)"
proof -
  note d = gbs_invD[OF inv]
  have r: "row < length L" using last by simp
  have small: "lam ! row < 2 ^ 31" using d(3)[OF r] fits_int_nth[OF F r] by simp
  define step where "step = min bs (int (lam ! row))"
  have ti: "to_int (lam ! row) = int (lam ! row)" using small by (rule to_int_small)
  have gb0: "gbs_body lam xi row fnz bs res =
      (if 0 < bs - step then Stop (Inr res)
       else emit (lam[row := usub (lam ! row) (to_size step)])
                 (xi[row := uadd (xi ! row) (to_size step)]) row fnz (bs - step) res)"
    unfolding step_def ti[symmetric] using last d(1) by (simp add: gbs_body_def Let_def)
  show ?thesis
  proof (cases "0 < bs - step")
    case True
    then have "gbs_body lam xi row fnz bs res = Stop (Inr res)"
      unfolding gb0 by simp
    then show ?thesis by (simp add: gbs_progress_def)
  next
    case False
    then have st: "step = bs" and le: "bs \<le> int (lam ! row)" by (simp_all add: step_def)
    have s: "0 \<le> step" "step \<le> int (lam ! row)" using st le pos by simp_all
    note mt = machine_take[OF inv r F s]
    have k: "1 \<le> nat step" "nat step \<le> lam ! row" using st le pos by simp_all
    have inv1: "gbs_inv L m (lam[row := lam ! row - nat step]) (xi[row := xi ! row + nat step]) row fnz (bs - int (nat step))"
      by (rule take_from_row(1)[OF inv r k]) (use last in simp)
    have b0: "bs - int (nat step) = 0" using st pos by simp
    have gb: "gbs_body lam xi row fnz bs res =
        emit (lam[row := lam ! row - nat step]) (xi[row := xi ! row + nat step]) row fnz 0 res"
      unfolding gb0 mt using False st by simp
    show ?thesis unfolding gb
      by (rule emit_progress[OF P F inv1[unfolded b0] _ r])
        (use take_from_row(2)[OF inv r k] pos last in simp_all)
  qed
qed

lemma body_left:
  assumes P: "is_partition L" and F: "fits_int L"
    and inv: "gbs_inv L m lam xi row fnz bs" and pos: "0 < bs" and nl: "row + 1 < length L"
    and gt: "lam ! (row + 1) < lam ! row"
  shows "gbs_progress L m xi row fnz bs res (gbs_body lam xi row fnz bs res)"
proof -
  note d = gbs_invD[OF inv]
  have r: "row < length L" using nl by simp
  have small: "lam ! row < 2 ^ 31" using d(3)[OF r] fits_int_nth[OF F r] by simp
  have "xi ! (row + 1) = 0" using d(6)[of "row + 1"] nl by simp
  then have nxt: "lam ! (row + 1) = L ! (row + 1)" using d(3)[of "row + 1"] nl by simp
  define diff where "diff = lam ! row - lam ! (row + 1)"
  have us: "usub (lam ! row) (lam ! (row + 1)) = diff"
    using gt small by (simp add: diff_def usub_exact)
  have ti: "to_int diff = int diff" using small by (simp add: diff_def to_int_small)
  define step where "step = min bs (int diff)"
  have s: "0 \<le> step" "step \<le> int (lam ! row)" and s1: "1 \<le> step"
    using pos gt by (simp_all add: step_def diff_def)
  note mt = machine_take[OF inv r F s]
  have k: "1 \<le> nat step" "nat step \<le> lam ! row" using s s1 by simp_all
  have nx: "L ! (row + 1) + nat step \<le> lam ! row"
    using nxt gt by (simp add: step_def diff_def)
  have ns: "int (nat step) = step" using s by simp
  have inv1: "gbs_inv L m (lam[row := lam ! row - nat step]) (xi[row := xi ! row + nat step]) row fnz (bs - step)"
    using take_from_row(1)[OF inv r k nx] ns by simp
  have se: "min bs (to_int (usub (lam ! row) (lam ! (row + 1)))) = step"
    by (simp only: us ti step_def)
  have gb0: "gbs_body lam xi row fnz bs res =
       emit (lam[row := usub (lam ! row) (to_size step)])
            (xi[row := uadd (xi ! row) (to_size step)]) row fnz (bs - step) res"
    unfolding se[symmetric] using nl d(1) gt
    by (simp add: gbs_body_def Let_def)
  have gb: "gbs_body lam xi row fnz bs res =
        emit (lam[row := lam ! row - nat step]) (xi[row := xi ! row + nat step]) row fnz (bs - step) res"
    unfolding gb0 mt by simp
  show ?thesis unfolding gb
    by (rule emit_progress[OF P F inv1 _ r])
      (use take_from_row(2)[OF inv r k nx] s1 in \<open>simp_all add: step_def\<close>)
qed

lemma sum_list_single:
  assumes "r < length xs" "\<And>i. i < length xs \<Longrightarrow> i \<noteq> r \<Longrightarrow> xs ! i = 0"
  shows "sum_list xs = (xs ! r :: nat)"
proof -
  have "\<forall>x\<in>set (xs[r := 0]). x = 0"
  proof
    fix x assume "x \<in> set (xs[r := 0])"
    then obtain i where i: "i < length xs" "x = xs[r := 0] ! i"
      by (auto simp: in_set_conv_nth)
    then show "x = 0" using assms(2)[of i] by (cases "i = r") simp_all
  qed
  then have z: "sum_list (xs[r := 0]) = 0" by simp
  have "int (sum_list xs) = int (xs ! r)"
    using sum_list_zero_at[OF assms(1)] unfolding z by simp
  then show ?thesis by simp
qed

lemma refund_inv:
  assumes P: "is_partition L" and F: "fits_int L"
  shows "gbs_inv L m lam xi row fnz bs \<Longrightarrow> row < length L \<Longrightarrow> int (xi ! row) \<le> m \<Longrightarrow>
    \<exists>lam' xi' fnz' bs'. refund lam xi fnz bs = Inr (lam', xi', fnz', bs')
       \<and> gbs_inv L m lam' xi' row fnz' bs' \<and> 0 \<le> bs'"
proof (induction lam xi fnz bs rule: refund.induct)
  case (1 lam xi fnz bs)
  note inv = "1.prems"(1) and r = "1.prems"(2) and one = "1.prems"(3)
  note d = gbs_invD[OF inv]
  show ?case
  proof (cases "bs < 0")
    case False
    then show ?thesis using inv by (subst refund.simps) simp
  next
    case True
    have lt: "fnz < row"
    proof (rule ccontr)
      assume "\<not> fnz < row"
      then have e: "fnz = row" using d(4) by simp
      then have cs: "chain_start xi row fnz = row" by (simp add: chain_start_def)
      have "sum_list xi = xi ! row"
      proof (rule sum_list_single)
        show "row < length xi" using r d(2) by simp
        fix i assume "i < length xi" "i \<noteq> row"
        then have "i < row \<or> row < i" by auto
        then show "xi ! i = 0" using d(6)[of i] d(2) cs \<open>i < length xi\<close> by simp
      qed
      then show False using d(10) one True by simp
    qed
    then have f: "fnz < length L" using r by simp
    have fl: "fnz < length lam" using f d(1) by simp
    define lam1 where "lam1 = lam[fnz := uadd (lam ! fnz) (xi ! fnz)]"
    define xi1 where "xi1 = xi[fnz := 0]"
    define bs1 where "bs1 = bs + to_int (xi ! fnz)"
    have lf: "lam ! fnz + xi ! fnz = L ! fnz" using d(3)[OF f] .
    have lam1_eq: "lam1 = lam[fnz := L ! fnz]"
      using lf fits_int_nth[OF F f] by (simp add: lam1_def uadd_exact)
    have bs1_eq: "bs1 = bs + int (xi ! fnz)"
      using lf fits_int_nth[OF F f] by (simp add: bs1_def to_int_small)
    have csle: "chain_start xi row fnz \<le> fnz + 1" using chain_start_cases[of xi row fnz] by auto
    have nz: "xi ! (fnz + 1) \<noteq> 0" if "fnz + 1 < row"
    proof -
      have "lam ! (fnz + 1) + 1 = L ! (fnz + 1 + 1)" using d(7)[of "fnz + 1"] that csle by simp
      moreover have "L ! (fnz + 1 + 1) \<le> L ! (fnz + 1)"
        using partition_nth_mono[OF P, of "fnz + 1" "fnz + 1 + 1"] that r by simp
      ultimately show ?thesis using d(3)[of "fnz + 1"] that r by simp
    qed
    have cs1: "chain_start xi1 row (fnz + 1) = fnz + 1"
      using nz by (auto simp: chain_start_def xi1_def)
    have inv1: "gbs_inv L m lam1 xi1 row (fnz + 1) bs1"
    proof (rule gbs_invI)
      show "length lam1 = length L" "length xi1 = length L"
        using d(1,2) by (simp_all add: lam1_def xi1_def)
      show "lam1 ! i + xi1 ! i = L ! i" if "i < length L" for i
        using that d(1,2) d(3)[OF that] by (cases "i = fnz") (simp_all add: lam1_eq xi1_def)
      show "fnz + 1 \<le> row" using lt by simp
      show "row \<le> length L" by (rule d(5))
      show "xi1 ! i = 0" if "i < length L" "i < chain_start xi1 row (fnz + 1) \<or> row < i" for i
      proof (cases "i = fnz")
        case True then show ?thesis using f d(2) by (simp add: xi1_def)
      next
        case False
        then have "i < chain_start xi row fnz \<or> row < i"
          using that cs1 chain_start_le[of fnz xi row] by auto
        then have "xi ! i = 0" using d(6)[of i] that by simp
        then show ?thesis using False by (simp add: xi1_def)
      qed
      show "row < length L \<and> lam1 ! i + 1 = L ! (i + 1)"
        if "chain_start xi1 row (fnz + 1) \<le> i" "i < row" for i
      proof -
        have "row < length L \<and> lam ! i + 1 = L ! (i + 1)" using d(7)[of i] that csle cs1 by simp
        then show ?thesis using that cs1 by (simp add: lam1_eq)
      qed
      show "1 \<le> xi1 ! row" if "chain_start xi1 row (fnz + 1) < row"
        using d(8) that csle cs1 lt by (simp add: xi1_def)
      show "L ! (row + 1) \<le> lam1 ! row" if "row + 1 < length L"
        using d(9)[OF that] lt by (simp add: lam1_eq)
      show "bs1 + int (sum_list xi1) = m"
        using sum_list_zero_at[of fnz xi] f d(2) d(10) by (simp add: xi1_def bs1_eq)
    qed
    have one1: "int (xi1 ! row) \<le> m" using one lt by (simp add: xi1_def)
    have "\<exists>lam' xi' fnz' bs'. refund lam1 xi1 (fnz + 1) bs1 = Inr (lam', xi', fnz', bs')
       \<and> gbs_inv L m lam' xi' row fnz' bs' \<and> 0 \<le> bs'"
      using "1.IH"[OF True fl] inv1 r one1 unfolding lam1_def xi1_def bs1_def by blast
    moreover have "refund lam xi fnz bs = refund lam1 xi1 (fnz + 1) bs1"
      using True fl by (subst refund.simps) (simp add: lam1_def xi1_def bs1_def)
    ultimately show ?thesis by simp
  qed
qed

lemma body_down:
  assumes P: "is_partition L" and F: "fits_int L"
    and inv: "gbs_inv L m lam xi row fnz bs" and pos: "0 < bs" and nl: "row + 1 < length L"
    and ngt: "\<not> lam ! (row + 1) < lam ! row"
  shows "gbs_progress L m xi row fnz bs res (gbs_body lam xi row fnz bs res)"
proof -
  note d = gbs_invD[OF inv]
  have r: "row < length L" using nl by simp
  have above: "xi ! i = 0 \<and> lam ! i = L ! i" if "row < i" "i < length L" for i
    using d(6)[of i] d(3)[of i] that by simp
  define c where "c = lam ! row"
  have c1: "lam ! (row + 1) = c" using d(9)[OF nl] above[of "row + 1"] nl ngt by (simp add: c_def)
  have cpos: "1 \<le> c" using c1 above[of "row + 1"] nl partition_nth_pos[OF P nl] by simp
  have xsmall: "xi ! i + 1 < 2 ^ 64" if "i < length L" for i
  proof -
    have "xi ! i < 2 ^ 31" using d(3)[OF that] fits_int_nth[OF F that] by simp
    then show ?thesis by simp
  qed
  obtain xi1 row1 bs1 where dr: "down_run lam row row xi bs = (xi1, row1, bs1)"
    by (cases "down_run lam row row xi bs") auto
  have a1: "length xi = length lam" using d(1,2) by simp
  have a2: "\<forall>i<length lam. row \<le> i \<longrightarrow> xi ! i + 1 < 2 ^ 64" using xsmall d(1) by simp
  note spec = down_run_spec[OF a1 a2, where p = row and bs = bs, unfolded dr prod.case]
  note s1 = spec[THEN conjunct1, rule_format]
    and s2 = spec[THEN conjunct2, THEN conjunct1, rule_format]
    and s3 = spec[THEN conjunct2, THEN conjunct2, THEN conjunct1, rule_format]
    and s4 = spec[THEN conjunct2, THEN conjunct2, THEN conjunct2, THEN conjunct1]
    and s5 = spec[THEN conjunct2, THEN conjunct2, THEN conjunct2, THEN conjunct2, THEN conjunct1, rule_format]
    and s6 = spec[THEN conjunct2, THEN conjunct2, THEN conjunct2, THEN conjunct2, THEN conjunct2, THEN conjunct1]
    and s7 = spec[THEN conjunct2, THEN conjunct2, THEN conjunct2, THEN conjunct2, THEN conjunct2, THEN conjunct2, rule_format]
  have rr: "row \<le> row1" "row1 \<le> length L" using s1 d(1) r by simp_all
  have "row1 \<noteq> row" using s3 r d(1) by auto
  moreover have "row1 \<noteq> row + 1" using s3 nl d(1) c1 by (auto simp: c_def)
  ultimately have r2: "row + 2 \<le> row1" using rr by simp
  have run: "lam ! i = c" if "row \<le> i" "i < row1" for i using s2[of i] that by (simp add: c_def)
  have x1: "xi1 ! i = (if row \<le> i \<and> i < row1 then xi ! i + 1 else xi ! i)" if "i < length L" for i
    using s5[of i] that d(2) by simp
  define lam1 where "lam1 = dec_rows lam row row1"
  have dec: "length lam1 = length lam
   \<and> (\<forall>i<length lam. lam1 ! i = (if row \<le> i \<and> i < row1 then usub (lam ! i) 1 else lam ! i))"
    unfolding lam1_def by (rule dec_rows_spec) (use rr d(1) in simp)
  have l1: "lam1 ! i = (if row \<le> i \<and> i < row1 then c - 1 else lam ! i)" if "i < length L" for i
  proof (cases "row \<le> i \<and> i < row1")
    case True
    have "lam ! i < 2 ^ 64" using d(3)[OF that] fits_int_nth[OF F that] by simp
    then have "usub (lam ! i) 1 = c - 1" using run[of i] True cpos by (simp add: usub_exact)
    then show ?thesis using dec[THEN conjunct2, rule_format, of i] that d(1) True by simp
  next
    case False
    then show ?thesis using dec[THEN conjunct2, rule_format, of i] that d(1) by auto
  qed
  define row2 where "row2 = row1 - 1"
  have r2': "row < row2" "row2 < length L" "row2 + 1 = row1" "row2 < row1"
    using r2 rr by (simp_all add: row2_def)
  have xf: "fnz < row \<Longrightarrow> xi1 ! fnz = xi ! fnz" using x1[of fnz] r by simp
  have xr: "xi1 ! row = xi ! row + 1" using x1[of row] r r2 by simp
  have cs: "chain_start xi1 row2 fnz = chain_start xi row fnz"
  proof (cases "fnz < row")
    case True
    then show ?thesis using xf r2' by (simp add: chain_start_def)
  next
    case False
    then have "fnz = row" using d(4) by simp
    then show ?thesis using xr r2' by (simp add: chain_start_def)
  qed
  have csr: "chain_start xi row fnz \<le> row" using d(4) by (simp add: chain_start_def)
  have inv1: "gbs_inv L m lam1 xi1 row2 fnz bs1"
  proof (rule gbs_invI)
    show "length lam1 = length L" using dec d(1) by simp
    show "length xi1 = length L" using s4 d(2) by simp
    show "lam1 ! i + xi1 ! i = L ! i" if "i < length L" for i
    proof (cases "row \<le> i \<and> i < row1")
      case True
      then have "lam ! i = c" using run[of i] by simp
      then show ?thesis using l1[OF that] x1[OF that] True d(3)[OF that] cpos by simp
    next
      case False
      then show ?thesis using l1[OF that] x1[OF that] d(3)[OF that] by auto
    qed
    show "fnz \<le> row2" using d(4) r2' by simp
    show "row2 \<le> length L" using r2' by simp
    show "xi1 ! i = 0" if "i < length L" "i < chain_start xi1 row2 fnz \<or> row2 < i" for i
    proof -
      from that(2) have "i < chain_start xi row fnz \<or> row1 \<le> i" unfolding cs using r2' by auto
      then have "\<not> (row \<le> i \<and> i < row1)" and "i < chain_start xi row fnz \<or> row < i"
        using csr rr r2 by auto
      then show ?thesis using x1[OF that(1)] d(6)[OF that(1)] by simp
    qed
    show "row2 < length L \<and> lam1 ! i + 1 = L ! (i + 1)" if "chain_start xi1 row2 fnz \<le> i" "i < row2" for i
    proof (cases "i < row")
      case True
      then have "lam ! i + 1 = L ! (i + 1)" using d(7)[of i] that cs by simp
      moreover have "lam1 ! i = lam ! i" using l1[of i] True r by simp
      ultimately show ?thesis using r2' by simp
    next
      case False
      then have a: "row \<le> i" "i < row1" "i < length L" using that r2' by simp_all
      have b: "row < i + 1" "i + 1 < row1" "i + 1 < length L" using a that r2' by simp_all
      have "lam ! (i + 1) = c" using run[of "i + 1"] b by simp
      then have "L ! (i + 1) = c" using above[of "i + 1"] b by simp
      then show ?thesis using l1[OF a(3)] a cpos r2' by simp
    qed
    show "1 \<le> xi1 ! row2" using x1[of row2] r2' by simp
    show "L ! (row2 + 1) \<le> lam1 ! row2" if "row2 + 1 < length L"
    proof -
      have lt: "row1 < length L" using that r2' by simp
      then have "lam ! row1 \<noteq> c" using s3 d(1) by (simp add: c_def)
      moreover have "lam ! row1 = L ! row1" using above[of row1] lt r2 by simp
      moreover have "L ! row1 \<le> L ! (row + 1)"
        using partition_nth_mono[OF P, of "row + 1" row1] lt r2 by simp
      moreover have "L ! (row + 1) = c" using above[of "row + 1"] nl c1 by simp
      ultimately have "L ! row1 < c" by simp
      then show ?thesis using l1[of row2] r2' by simp
    qed
    show "bs1 + int (sum_list xi1) = m"
      using s6 s7 d(10) d(1) r rr by simp
  qed
  have "xi1 ! row2 = 1" using x1[of row2] r2' above[of row2] by simp
  moreover have "1 \<le> m" using d(10) pos by simp
  ultimately have one: "int (xi1 ! row2) \<le> m" by simp
  from refund_inv[OF P F inv1 r2'(2) one] obtain lam2 xi2 fnz2 bs2 where
    rf: "refund lam1 xi1 fnz bs1 = Inr (lam2, xi2, fnz2, bs2)"
    and inv2: "gbs_inv L m lam2 xi2 row2 fnz2 bs2" and nn: "0 \<le> bs2"
    by blast
  have gb: "gbs_body lam xi row fnz bs res = emit lam2 xi2 row2 fnz2 bs2 res"
    using nl d(1) ngt dr rf by (simp add: gbs_body_def Let_def lam1_def row2_def)
  show ?thesis unfolding gb
    by (rule emit_progress[OF P F inv2 nn r2'(2)]) (use r2' in simp)
qed

subsection \<open>The loop returns, and what it returns\<close>

lemma gbs_body_progress:
  assumes P: "is_partition L" and F: "fits_int L"
    and inv: "gbs_inv L m lam xi row fnz bs" and pos: "0 < bs" and r: "row < length L"
  shows "gbs_progress L m xi row fnz bs res (gbs_body lam xi row fnz bs res)"
proof (cases "row + 1 = length L")
  case True
  then show ?thesis by (rule body_last[OF P F inv pos])
next
  case False
  then have nl: "row + 1 < length L" using r by simp
  show ?thesis
  proof (cases "lam ! (row + 1) < lam ! row")
    case True
    then show ?thesis by (rule body_left[OF P F inv pos nl])
  next
    case False
    then show ?thesis by (rule body_down[OF P F inv pos nl])
  qed
qed

lemma gbs_loop_exit:
  "\<not> (0 < bs \<and> row < length lam) \<Longrightarrow> gbs_loop lam xi row fnz bs res = Some (Inr res)"
  by (subst gbs_loop.simps) auto

lemma wf_gbs_order: "wf (less_than <*lex*> less_than <*lex*> less_than)"
  by (intro wf_lex_prod wf_less_than)

lemma gbs_loop_total_aux:
  assumes P: "is_partition L" and F: "fits_int L"
  shows "\<forall>lam xi row fnz bs res. M = gbs_measure (length L) xi row fnz bs \<longrightarrow>
      gbs_inv L m lam xi row fnz bs \<longrightarrow> (\<forall>p\<in>set res. strip_ok L m p) \<longrightarrow>
      (\<exists>res'. gbs_loop lam xi row fnz bs res = Some (Inr res') \<and> (\<forall>p\<in>set res'. strip_ok L m p))"
proof (induction M rule: wf_induct_rule[OF wf_gbs_order])
  case (1 M)
  show ?case
  proof (intro allI impI)
    fix lam xi row fnz bs res
    assume M: "M = gbs_measure (length L) xi row fnz bs"
      and inv: "gbs_inv L m lam xi row fnz bs" and ok: "\<forall>p\<in>set res. strip_ok L m p"
    have len: "length lam = length L" using gbs_invD(1)[OF inv] .
    show "\<exists>res'. gbs_loop lam xi row fnz bs res = Some (Inr res') \<and> (\<forall>p\<in>set res'. strip_ok L m p)"
    proof (cases "0 < bs \<and> row < length L")
      case False
      then show ?thesis using gbs_loop_exit[of bs row lam xi fnz res] ok len by simp
    next
      case True
      then have pos: "0 < bs" and r: "row < length L" by simp_all
      note pr = gbs_body_progress[OF P F inv pos r, of res]
      show ?thesis
      proof (cases "gbs_body lam xi row fnz bs res")
        case (Stop x)
        then have "x = Inr res" using pr by (simp add: gbs_progress_def)
        then have "gbs_loop lam xi row fnz bs res = Some (Inr res)"
          using True len Stop by (subst gbs_loop.simps) simp
        then show ?thesis using ok by simp
      next
        case (Next lam' xi' row' fnz' bs' res')
        note pr' = pr[unfolded Next gbs_progress_def loop_step.case]
        have inv': "gbs_inv L m lam' xi' row' fnz' bs'" using pr'[THEN conjunct1] .
        have "res' = res \<or> (\<exists>p. res' = res @ [p] \<and> border_strip_removed L m p \<and> non_increasing (sub_partition p))"
          using pr'[THEN conjunct2, THEN conjunct1] .
        then have ok': "\<forall>p\<in>set res'. strip_ok L m p" using ok by (auto simp: strip_ok_def)
        have eq: "gbs_loop lam xi row fnz bs res = gbs_loop lam' xi' row' fnz' bs' res'"
          using True len Next by (subst gbs_loop.simps) simp
        have len': "length lam' = length L" using gbs_invD(1)[OF inv'] .
        show ?thesis
        proof (cases "0 < bs' \<and> row' < length L")
          case False
          then show ?thesis unfolding eq
            using gbs_loop_exit[of bs' row' lam' xi' fnz' res'] ok' len' by simp
        next
          case True
          then have "(gbs_measure (length L) xi' row' fnz' bs', M)
                   \<in> less_than <*lex*> less_than <*lex*> less_than"
            unfolding M using pr'[THEN conjunct2, THEN conjunct2] by simp
          from "1.IH"[OF this, rule_format, OF refl inv'] ok' show ?thesis unfolding eq by blast
        qed
      qed
    qed
  qed
qed

lemma gbs_loop_total:
  assumes P: "is_partition L" and F: "fits_int L"
    and "gbs_inv L m lam xi row fnz bs" and "\<forall>p\<in>set res. strip_ok L m p"
  shows "\<exists>res'. gbs_loop lam xi row fnz bs res = Some (Inr res') \<and> (\<forall>p\<in>set res'. strip_ok L m p)"
  using gbs_loop_total_aux[OF P F, rule_format, OF refl assms(3)] assms(4) by blast

lemma gbs_inv_initial:
  assumes P: "is_partition L"
  shows "gbs_inv L m L (replicate (length L) 0) 0 0 m"
proof (rule gbs_invI)
  show "L ! (0 + 1) \<le> L ! 0" if "0 + 1 < length L"
    using partition_nth_mono[OF P, of 0 "0 + 1"] that by simp
qed (simp_all add: chain_start_def)

lemma get_border_strips_total:
  assumes P: "is_partition L" and F: "fits_int L"
  shows "\<exists>result. get_border_strips L m = Some (Inr result) \<and> (\<forall>p\<in>set result. strip_ok L m p)"
  unfolding get_border_strips_def
  by (rule gbs_loop_total[OF P F gbs_inv_initial[OF P]]) simp

subsection \<open>The contract of get_border_strips\<close>

text \<open>
  The counter \<^verbatim>\<open>bs_length\<close> is a 32-bit \<^verbatim>\<open>int\<close> in the source.  Under the invariant it
  never exceeds the strip length \<open>m\<close>, and the inner loop of the down step, the only place
  where it goes down by more than it was, takes it down by at most the number of rows.  So
  with fewer than \<open>2 ^ 31\<close> rows no value of the counter leaves the range of \<^verbatim>\<open>int\<close>,
  and its arithmetic in the source is the one of the model.
\<close>

lemma counter_at_most_m:
  assumes "gbs_inv L m lam xi row fnz bs"
  shows "bs \<le> m"
  using gbs_invD(10)[OF assms] by simp

lemma down_run_counter_range:
  assumes "length xi = length lam" and "\<forall>i<length lam. row \<le> i \<longrightarrow> xi ! i + 1 < 2 ^ 64"
    and "row \<le> length lam" and "length lam < 2 ^ 31" and "0 < bs"
  shows "case down_run lam p row xi bs of (xi', row', bs') \<Rightarrow> - (2 ^ 31) < bs' \<and> bs' \<le> bs"
proof -
  obtain xi' row' bs' where dr: "down_run lam p row xi bs = (xi', row', bs')"
    by (cases "down_run lam p row xi bs") auto
  note spec = down_run_spec[OF assms(1,2), where p = p and bs = bs, unfolded dr prod.case]
  have "row' \<le> length lam" using spec[THEN conjunct1] assms(3) by simp
  moreover have "bs' = bs - int (row' - row)"
    using spec[THEN conjunct2, THEN conjunct2, THEN conjunct2, THEN conjunct2, THEN conjunct2,
        THEN conjunct1] .
  ultimately show ?thesis unfolding dr using assms(4,5) by simp
qed

text \<open>
  C5, amended.  For a partition with positive parts (as \<open>char_value\<close> passes it, after
  \<open>correct_partition\<close>) whose parts fit \<^verbatim>\<open>int\<close> and which has fewer than \<open>2 ^ 31\<close> rows,
  and any strip length \<open>m\<close>, \<open>get_border_strips\<close> returns, and every pair it returns is a
  border strip removal of \<open>m\<close> cells: the rows add up to \<open>lambda\<close>, the strip has \<open>m\<close>
  cells, the sub-partition is non-increasing (also before its zero parts are dropped), and
  the strip is connected and has no 2x2 block.
\<close>

theorem get_border_strips_sound:
  assumes "is_partition lambda" and "fits_int lambda" and "length lambda < 2 ^ 31"
  shows "\<exists>result. get_border_strips lambda m = Some (Inr result)
           \<and> (\<forall>p\<in>set result. border_strip_removed lambda m p \<and> non_increasing (sub_partition p))"
  using get_border_strips_total[OF assms(1,2), of m] by (simp add: strip_ok_def)

theorem get_border_strips_sound_witness:
  "border_strip_removed [3, 3] 2 \<lparr>sub_partition = [2, 2], border_strip = [1, 1]\<rparr>
   \<and> border_strip_removed [3, 3] 2 \<lparr>sub_partition = [3, 1], border_strip = [0, 2]\<rparr>"
proof -
  have "is_partition [3, 3]" "fits_int [3, 3]" "length [3, 3 :: nat] < 2 ^ 31"
    by (simp_all add: is_partition_def positive_parts_def non_increasing_def fits_int_def)
  from get_border_strips_sound[OF this, of 2] obtain result where
    "get_border_strips [3, 3] 2 = Some (Inr result)"
    and ok: "\<forall>p\<in>set result. border_strip_removed [3, 3] 2 p \<and> non_increasing (sub_partition p)"
    by blast
  moreover have "get_border_strips [3, 3] 2 =
      Some (Inr [\<lparr>sub_partition = [2, 2], border_strip = [1, 1]\<rparr>,
                 \<lparr>sub_partition = [3, 1], border_strip = [0, 2]\<rparr>])"
    by (simp add: gbs_eval)
  ultimately have "result = [\<lparr>sub_partition = [2, 2], border_strip = [1, 1]\<rparr>,
                 \<lparr>sub_partition = [3, 1], border_strip = [0, 2]\<rparr>]" by simp
  with ok show ?thesis by simp
qed

text \<open>
  C5, as stated, fails on a partition with trailing zeros: for \<open>[1,0,0]\<close> and the strip
  length 2 the down step takes a cell from the empty rows, which wraps around, and the one
  pair returned has the sub-partition \<open>[1, 2^64 - 1, 2^64 - 1]\<close>: its rows do not add up
  to \<open>lambda\<close>, and without zero parts it is not non-increasing.
\<close>

theorem border_strips_trailing_zeros:
  "get_border_strips [1, 0, 0] 2 =
     Some (Inr [\<lparr>sub_partition = [1, 18446744073709551615, 18446744073709551615],
                 border_strip = [0, 1, 1]\<rparr>])
   \<and> \<not> border_strip_removed [1, 0, 0] 2
         \<lparr>sub_partition = [1, 18446744073709551615, 18446744073709551615], border_strip = [0, 1, 1]\<rparr>
   \<and> \<not> is_partition (correct_partition [1, 18446744073709551615, 18446744073709551615])"
proof (intro conjI)
  show "get_border_strips [1, 0, 0] 2 =
     Some (Inr [\<lparr>sub_partition = [1, 18446744073709551615, 18446744073709551615],
                 border_strip = [0, 1, 1]\<rparr>])"
    by (simp add: gbs_eval)
  show n: "\<not> is_partition (correct_partition [1, 18446744073709551615, 18446744073709551615])"
    by (simp add: is_partition_def non_increasing_def correct_partition_def)
  show "\<not> border_strip_removed [1, 0, 0] 2
         \<lparr>sub_partition = [1, 18446744073709551615, 18446744073709551615], border_strip = [0, 1, 1]\<rparr>"
    using n by (simp add: border_strip_removed_def)
qed

text \<open>
  C4, amended.  \<open>get_border_strips [3,1] 2\<close> returns exactly one pair: the two cells at
  the end of the top row, which leaves \<open>[1,1]\<close>.  The other removal the spec names, the
  bottom row and one cell of the top row, would leave \<open>[2,0]\<close>; its two cells do not
  touch, so it is no border strip, and it is not returned.
\<close>

theorem border_strips_31_exact:
  "get_border_strips [3, 1] 2 = Some (Inr [\<lparr>sub_partition = [1, 1], border_strip = [2, 0]\<rparr>])"
  by (simp add: gbs_eval)

lemma bottom_row_and_one_cell_not_connected: "\<not> connected_strip [3, 1] [2, 0]"
proof
  assume "connected_strip [3, 1] [2, 0]"
  then have "\<exists>c. cell [3, 1] [2, 0] 0 c \<and> cell [3, 1] [2, 0] (0 + 1) c"
    unfolding connected_strip_def by (elim allE[of _ 0] allE[of _ 1] impE) simp_all
  then show False by (auto simp: cell_def)
qed

section \<open>char_value on partitions\<close>

text \<open>
  From here on \<open>lambda\<close> is \<open>admissible\<close>: a partition, once its zero parts are dropped,
  with parts below \<open>2 ^ 31\<close> and fewer than \<open>2 ^ 31\<close> rows.  Every sub-partition that
  \<open>get_border_strips\<close> returns for it is admissible again, and has as many cells fewer as
  the strip is long.
\<close>

lemma correct_partition_idem [simp]: "correct_partition (correct_partition xs) = correct_partition xs"
  by (simp add: correct_partition_def)

lemma sum_list_correct_partition [simp]: "sum_list (correct_partition xs) = sum_list xs"
  by (induction xs) (simp_all add: correct_partition_def)

lemma fits_int_correct_partition: "fits_int xs \<Longrightarrow> fits_int (correct_partition xs)"
  by (simp add: fits_int_def correct_partition_def)

lemma rowwise_sum:
  "length a = length c \<Longrightarrow> length b = length c \<Longrightarrow> \<forall>i<length c. a ! i + b ! i = c ! i \<Longrightarrow>
   sum_list a + sum_list b = (sum_list c :: nat)"
proof (induction c arbitrary: a b)
  case Nil
  then show ?case by simp
next
  case (Cons z c)
  then obtain x a' y b' where a: "a = x # a'" and b: "b = y # b'"
    by (metis length_Suc_conv)
  have h: "x + y = z" using Cons.prems(3)[rule_format, of 0] a b by simp
  have "\<forall>i<length c. a' ! i + b' ! i = c ! i"
  proof (intro allI impI)
    fix i assume "i < length c"
    then show "a' ! i + b' ! i = c ! i" using Cons.prems(3)[rule_format, of "Suc i"] a b by simp
  qed
  then have "sum_list a' + sum_list b' = sum_list c"
    using Cons.IH[of a' b'] Cons.prems(1,2) a b by simp
  then show ?case using h a b by simp
qed

lemma strip_ok_facts:
  assumes ok: "strip_ok L m p" and F: "fits_int L" and R: "length L < 2 ^ 31"
  shows "admissible (correct_partition (sub_partition p))"
    and "int (sum_list (sub_partition p)) = int (sum_list L) - m"
proof -
  note b = ok[unfolded strip_ok_def border_strip_removed_def, THEN conjunct1]
  have l1: "length (sub_partition p) = length L" using b[THEN conjunct1] .
  have l2: "length (border_strip p) = length L" using b[THEN conjunct2, THEN conjunct1] .
  have rw: "\<forall>i<length L. sub_partition p ! i + border_strip p ! i = L ! i"
    using b[THEN conjunct2, THEN conjunct2, THEN conjunct1] .
  have sm: "int (sum_list (border_strip p)) = m"
    using b[THEN conjunct2, THEN conjunct2, THEN conjunct2, THEN conjunct1] .
  have ip: "is_partition (correct_partition (sub_partition p))"
    using b[THEN conjunct2, THEN conjunct2, THEN conjunct2, THEN conjunct2, THEN conjunct1] .
  have "fits_int (sub_partition p)"
    unfolding fits_int_def
  proof
    fix x assume "x \<in> set (sub_partition p)"
    then obtain i where i: "i < length L" "x = sub_partition p ! i"
      using l1 by (auto simp: in_set_conv_nth)
    then have "x \<le> L ! i" using rw by auto
    then show "x < 2 ^ 31" using fits_int_nth[OF F i(1)] by simp
  qed
  moreover have "length (correct_partition (sub_partition p)) \<le> length L"
    using l1 length_filter_le[of "\<lambda>item. item > 0" "sub_partition p"]
    by (simp add: correct_partition_def)
  ultimately show "admissible (correct_partition (sub_partition p))"
    using ip R by (simp add: admissible_def fits_int_correct_partition)
  have "sum_list (sub_partition p) + sum_list (border_strip p) = sum_list L"
    by (rule rowwise_sum[OF l1 l2 rw])
  then show "int (sum_list (sub_partition p)) = int (sum_list L) - m"
    using sm by simp
qed

lemma get_border_strips_nonpositive: "m \<le> 0 \<Longrightarrow> get_border_strips L m = Some (Inr [])"
  by (simp add: get_border_strips_def gbs_loop_exit)

lemma get_border_strips_admissible:
  assumes "admissible lambda"
  shows "\<exists>strips. get_border_strips (correct_partition lambda) m = Some (Inr strips)
           \<and> (\<forall>p\<in>set strips. admissible (correct_partition (sub_partition p))
                \<and> 1 \<le> m
                \<and> int (sum_list (correct_partition (sub_partition p)))
                    = int (sum_list (correct_partition lambda)) - m)"
proof -
  have P: "is_partition (correct_partition lambda)" and F: "fits_int (correct_partition lambda)"
    and R: "length (correct_partition lambda) < 2 ^ 31"
    using assms by (simp_all add: admissible_def)
  from get_border_strips_total[OF P F, of m] obtain strips where
    g: "get_border_strips (correct_partition lambda) m = Some (Inr strips)"
    and ok: "\<forall>p\<in>set strips. strip_ok (correct_partition lambda) m p"
    by blast
  have "admissible (correct_partition (sub_partition p)) \<and> 1 \<le> m
        \<and> int (sum_list (correct_partition (sub_partition p)))
            = int (sum_list (correct_partition lambda)) - m" if "p \<in> set strips" for p
  proof -
    have "\<not> m \<le> 0" using get_border_strips_nonpositive[of m "correct_partition lambda"] g that by auto
    then show ?thesis using strip_ok_facts[OF ok[rule_format, OF that] F R] by simp
  qed
  then show ?thesis using g by blast
qed

lemma char_value_total_aux:
  "admissible l0 \<longrightarrow> char_value s l0 r0 \<noteq> None"
  "(\<forall>p\<in>set strips. admissible (correct_partition (sub_partition p))) \<longrightarrow>
     char_value_loop s strips rt acc \<noteq> None"
proof (induction s l0 r0 and s strips rt acc rule: char_value_char_value_loop.induct)
  case (1 self lambda0 rho0)
  show ?case
  proof
    assume ad: "admissible lambda0"
    show "char_value self lambda0 rho0 \<noteq> None"
    proof (cases "Sum_vec (correct_partition lambda0) < 2")
      case True
      then show ?thesis by (simp add: char_value_base)
    next
      case big: False
      show ?thesis
      proof (cases "find_value self (correct_partition lambda0) (correct_partition rho0)")
        case (Some x)
        then show ?thesis using big by (simp add: char_value_hit)
      next
        case None
        note cv = char_value_miss[OF big None]
        show ?thesis
        proof (cases "correct_partition rho0")
          case Nil
          then show ?thesis unfolding cv by simp
        next
          case (Cons rho_0 rho_tail)
          from get_border_strips_admissible[OF ad, of "to_int rho_0"] obtain strips where
            g: "get_border_strips (correct_partition lambda0) (to_int rho_0) = Some (Inr strips)"
            and ok: "\<forall>p\<in>set strips. admissible (correct_partition (sub_partition p))"
            by blast
          have "char_value_loop (touch self (correct_partition lambda0)) strips rho_tail 0 \<noteq> None"
            using "1.IH"[OF refl refl big refl _ Cons g refl] None ok by simp
          then show ?thesis unfolding cv Cons using g
            by (auto split: option.splits sum.splits)
        qed
      qed
    qed
  qed
next
  case (2 self rho_tail result)
  show ?case by (simp add: char_value_loop_Nil)
next
  case (3 self pair rest rho_tail result)
  show ?case
  proof
    assume a: "\<forall>p\<in>set (pair # rest). admissible (correct_partition (sub_partition p))"
    then have "admissible (correct_partition (sub_partition pair))" by simp
    then have c: "char_value self (correct_partition (sub_partition pair)) rho_tail \<noteq> None"
      using "3.IH"(1) by simp
    show "char_value_loop self (pair # rest) rho_tail result \<noteq> None"
    proof (cases "char_value self (correct_partition (sub_partition pair)) rho_tail")
      case None
      then show ?thesis using c by simp
    next
      case (Some x)
      show ?thesis
      proof (cases x)
        case (Inl e)
        then show ?thesis using Some by (simp add: char_value_loop_Cons)
      next
        case (Inr vs)
        obtain v s' where vs: "vs = (v, s')" by (cases vs)
        have "char_value_loop s' rest rho_tail
            (result + MinusOnePow (usub (length (correct_partition (border_strip pair))) 1) * v) \<noteq> None"
          using "3.IH"(2)[OF Some[unfolded Inr vs] refl refl] a by simp
        then show ?thesis using Some Inr vs by (simp add: char_value_loop_Cons)
      qed
    qed
  qed
qed


lemma foldl_uadd: "a < 2 ^ 64 \<Longrightarrow> foldl uadd a xs = (a + sum_list xs) mod 2 ^ 64"
proof (induction xs arbitrary: a)
  case Nil
  then show ?case by simp
next
  case (Cons x xs)
  have "uadd a x < 2 ^ 64" by (simp add: uadd_def)
  from Cons.IH[OF this] show ?case by (simp add: uadd_def mod_add_left_eq add.assoc)
qed

lemma Sum_vec_sum_list: "Sum_vec xs = sum_list xs mod 2 ^ 64"
  by (simp add: Sum_vec_def foldl_uadd)

lemma correct_partition_Cons:
  assumes "correct_partition r = x # xs"
  shows "0 < x" and "correct_partition xs = xs"
proof -
  have "x \<in> set (correct_partition r)" using assms by simp
  then show x: "0 < x" by (simp add: correct_partition_def)
  have "correct_partition (x # xs) = x # xs"
    using correct_partition_idem[of r] assms by simp
  then show "correct_partition xs = xs" using x by (simp add: correct_partition_def)
qed

lemma char_value_result_aux:
  "admissible l0 \<and> fits_int (correct_partition r0)
     \<and> sum_list (correct_partition l0) \<le> sum_list (correct_partition r0)
   \<longrightarrow> (\<exists>v s'. char_value s l0 r0 = Some (Inr (v, s')))"
  "(\<forall>p\<in>set strips. admissible (correct_partition (sub_partition p))
       \<and> sum_list (correct_partition (sub_partition p)) \<le> sum_list rt)
     \<and> fits_int rt \<and> correct_partition rt = rt
   \<longrightarrow> (\<exists>v s'. char_value_loop s strips rt acc = Some (Inr (v, s')))"
proof (induction s l0 r0 and s strips rt acc rule: char_value_char_value_loop.induct)
  case (1 self lambda0 rho0)
  show ?case
  proof
    assume a: "admissible lambda0 \<and> fits_int (correct_partition rho0)
      \<and> sum_list (correct_partition lambda0) \<le> sum_list (correct_partition rho0)"
    then have ad: "admissible lambda0" and fr: "fits_int (correct_partition rho0)"
      and le: "sum_list (correct_partition lambda0) \<le> sum_list (correct_partition rho0)"
      by simp_all
    show "\<exists>v s'. char_value self lambda0 rho0 = Some (Inr (v, s'))"
    proof (cases "Sum_vec (correct_partition lambda0) < 2")
      case True
      then show ?thesis by (simp add: char_value_base)
    next
      case big: False
      show ?thesis
      proof (cases "find_value self (correct_partition lambda0) (correct_partition rho0)")
        case (Some x)
        then show ?thesis using big by (simp add: char_value_hit)
      next
        case None
        note cv = char_value_miss[OF big None]
        show ?thesis
        proof (cases "correct_partition rho0")
          case Nil
          have "sum_list (correct_partition lambda0) \<le> 0" using le Nil by (simp only: sum_list.Nil)
          then have "Sum_vec (correct_partition lambda0) = 0"
            by (simp only: Sum_vec_sum_list le_zero_eq mod_0)
          then show ?thesis using big by simp
        next
          case (Cons rho_0 rho_tail)
          have pos: "0 < rho_0" and tl: "correct_partition rho_tail = rho_tail"
            using correct_partition_Cons[OF Cons] by simp_all
          have "rho_0 < 2 ^ 31" using fr Cons by (simp add: fits_int_def)
          then have ti: "to_int rho_0 = int rho_0" by (rule to_int_small)
          have ft: "fits_int rho_tail" using fr Cons by (simp add: fits_int_def)
          from get_border_strips_admissible[OF ad, of "to_int rho_0"] obtain strips where
            g: "get_border_strips (correct_partition lambda0) (to_int rho_0) = Some (Inr strips)"
            and ok: "\<forall>p\<in>set strips. admissible (correct_partition (sub_partition p))
                \<and> 1 \<le> to_int rho_0
                \<and> int (sum_list (correct_partition (sub_partition p)))
                    = int (sum_list (correct_partition lambda0)) - to_int rho_0"
            by auto
          have ok': "\<forall>p\<in>set strips. admissible (correct_partition (sub_partition p))
                \<and> sum_list (correct_partition (sub_partition p)) \<le> sum_list rho_tail"
          proof
            fix p assume p: "p \<in> set strips"
            note f = ok[rule_format, OF p]
            have "int (sum_list (correct_partition (sub_partition p)))
                    = int (sum_list (correct_partition lambda0)) - int rho_0"
              using f ti by simp
            moreover have "sum_list (correct_partition rho0) = rho_0 + sum_list rho_tail"
              using Cons by simp
            ultimately have "sum_list (correct_partition (sub_partition p)) \<le> sum_list rho_tail"
              using le by linarith
            then show "admissible (correct_partition (sub_partition p))
                \<and> sum_list (correct_partition (sub_partition p)) \<le> sum_list rho_tail"
              using f by simp
          qed
          have "\<exists>v s'. char_value_loop (touch self (correct_partition lambda0)) strips rho_tail 0
                  = Some (Inr (v, s'))"
            using "1.IH"[OF refl refl big refl _ Cons g refl] None ok' ft tl by simp
          then show ?thesis unfolding cv Cons using g by auto
        qed
      qed
    qed
  qed
next
  case (2 self rho_tail result)
  show ?case by (simp add: char_value_loop_Nil)
next
  case (3 self pair rest rho_tail result)
  show ?case
  proof
    assume a: "(\<forall>p\<in>set (pair # rest). admissible (correct_partition (sub_partition p))
       \<and> sum_list (correct_partition (sub_partition p)) \<le> sum_list rho_tail)
     \<and> fits_int rho_tail \<and> correct_partition rho_tail = rho_tail"
    then have "admissible (correct_partition (sub_partition pair))"
      and "sum_list (correct_partition (sub_partition pair)) \<le> sum_list rho_tail"
      and "fits_int rho_tail" and "correct_partition rho_tail = rho_tail"
      by simp_all
    then obtain v s' where
      c: "char_value self (correct_partition (sub_partition pair)) rho_tail = Some (Inr (v, s'))"
      using "3.IH"(1) by auto
    have "\<exists>v' s''. char_value_loop s' rest rho_tail
            (result + MinusOnePow (usub (length (correct_partition (border_strip pair))) 1) * v)
              = Some (Inr (v', s''))"
      using "3.IH"(2)[OF c refl refl] a by simp
    then show "\<exists>v s'. char_value_loop self (pair # rest) rho_tail result = Some (Inr (v, s'))"
      using c by (simp add: char_value_loop_Cons)
  qed
qed

lemma gbs_loop_stuck:
  "gbs_loop [4294967297, 1] [0, 0] 0 0 1 [] = None"
proof -
  define P :: "Partition \<Rightarrow> Partition \<Rightarrow> nat \<Rightarrow> nat \<Rightarrow> int \<Rightarrow> PartitionWithoutBorderStrip list
      \<Rightarrow> error + PartitionWithoutBorderStrip list \<Rightarrow> bool"
    where "P lam xi row fnz bs res y \<longleftrightarrow>
      \<not> (lam = [4294967297, 1] \<and> xi = [0, 0] \<and> row = 0 \<and> fnz = 0 \<and> bs = 1 \<and> res = [])"
    for lam xi row fnz bs res y
  have r: "P lam xi row fnz bs res y"
    if "gbs_loop lam xi row fnz bs res = Some y" for lam xi row fnz bs res y
  proof (rule gbs_loop.raw_induct[where P = P, OF _ that], goal_cases)
    case (1 f lam xi row fnz bs res y)
    show ?case unfolding P_def
    proof
      assume e: "lam = [4294967297, 1] \<and> xi = [0, 0] \<and> row = 0 \<and> fnz = 0 \<and> bs = 1 \<and> res = []"
      have "gbs_body [4294967297, 1] [0, 0] 0 0 1 [] = Next [4294967297, 1] [0, 0] 0 0 1 []"
        by (simp add: gbs_body_def emit_def machine_defs Let_def)
      then have "f [4294967297, 1] [0, 0] 0 0 1 [] = Some y" using 1(2) e by simp
      from 1(1)[OF this] show False by (simp add: P_def)
    qed
  qed
  show ?thesis
  proof (cases "gbs_loop [4294967297, 1] [0, 0] 0 0 1 []")
    case None
    then show ?thesis .
  next
    case (Some y)
    from r[OF Some] show ?thesis by (simp add: P_def)
  qed
qed

subsection \<open>Termination\<close>

text \<open>
  C7, as stated, fails for a part that does not fit \<^verbatim>\<open>int\<close>: it can stop the progress of
  \<open>get_border_strips\<close>.  For \<open>lambda = [2 ^ 32 + 1, 1]\<close> and the strip length 1 the left step computes
  \<^verbatim>\<open>static_cast<int>(lambda[0] - lambda[1])\<close>, which is 0 for the difference \<open>2 ^ 32\<close>, so
  \<^verbatim>\<open>step\<close> is 0 and the pass changes nothing: the loop never ends, and neither does
  \<open>char_value\<close> on \<open>lambda\<close> and \<open>rho = [1]\<close>.
\<close>

theorem char_value_huge_part_loops:
  "is_partition [4294967297, 1] \<and> char_value CharTable_init [4294967297, 1] [1] = None"
proof -
  have "get_border_strips [4294967297, 1] 1 = None"
    using gbs_loop_stuck by (simp add: get_border_strips_def numeral_2_eq_2)
  then have "char_value CharTable_init [4294967297, 1] [1] = None"
    by (simp add: char_value.simps touch_def find_value_def correct_partition_def Sum_vec_def
        CharTable_init_def machine_defs Let_def)
  then show ?thesis
    by (simp add: is_partition_def positive_parts_def non_increasing_def)
qed

text \<open>
  C7, amended.  For an admissible \<open>lambda\<close>, any \<open>rho\<close> and any state of the table,
  \<open>char_value\<close> terminates (with a value, or with the read of \<^verbatim>\<open>rho[0]\<close> out of bounds).
  When \<open>rho\<close> has a first part \<open>rho_0\<close> after normalization, the call of
  \<open>get_border_strips\<close> that \<open>char_value\<close> makes returns, and every sub-partition it returns,
  the argument of a recursive call, has \<open>to_int rho_0\<close> cells fewer than \<open>lambda\<close>, where
  \<open>to_int rho_0\<close>, the strip length the source passes, is at least 1 (and is \<open>rho_0\<close> itself
  when \<open>rho_0 < 2 ^ 31\<close>, by \<open>to_int_small\<close>).  So the sum strictly decreases.
\<close>

theorem char_value_terminates:
  assumes "admissible lambda"
  shows "char_value self lambda rho \<noteq> None
         \<and> (\<forall>rho_0 rho_tail. correct_partition rho = rho_0 # rho_tail \<longrightarrow>
              (\<exists>strips. get_border_strips (correct_partition lambda) (to_int rho_0) = Some (Inr strips)
                 \<and> (\<forall>p\<in>set strips.
                       1 \<le> rho_0 \<and> 1 \<le> to_int rho_0
                       \<and> int (sum_list (correct_partition (sub_partition p)))
                           = int (sum_list (correct_partition lambda)) - to_int rho_0
                       \<and> sum_list (correct_partition (sub_partition p))
                           < sum_list (correct_partition lambda))))"
proof (intro conjI allI impI)
  show "char_value self lambda rho \<noteq> None"
    using char_value_total_aux(1)[of lambda self rho] assms by simp
next
  fix rho_0 rho_tail assume c: "correct_partition rho = rho_0 # rho_tail"
  have pos: "1 \<le> rho_0" using correct_partition_Cons(1)[OF c] by simp
  from get_border_strips_admissible[OF assms, of "to_int rho_0"] obtain strips where
    g: "get_border_strips (correct_partition lambda) (to_int rho_0) = Some (Inr strips)"
    and ok: "\<forall>p\<in>set strips. admissible (correct_partition (sub_partition p))
                \<and> 1 \<le> to_int rho_0
                \<and> int (sum_list (correct_partition (sub_partition p)))
                    = int (sum_list (correct_partition lambda)) - to_int rho_0"
    by auto
  have "1 \<le> rho_0 \<and> 1 \<le> to_int rho_0
        \<and> int (sum_list (correct_partition (sub_partition p)))
            = int (sum_list (correct_partition lambda)) - to_int rho_0
        \<and> sum_list (correct_partition (sub_partition p)) < sum_list (correct_partition lambda)"
    if "p \<in> set strips" for p
  proof -
    note f = ok[rule_format, OF that]
    have a: "1 \<le> to_int rho_0" using f by simp
    have b: "int (sum_list (correct_partition (sub_partition p)))
               = int (sum_list (correct_partition lambda)) - to_int rho_0" using f by simp
    have "sum_list (correct_partition (sub_partition p)) < sum_list (correct_partition lambda)"
      using a b by linarith
    then show ?thesis using pos a b by simp
  qed
  then show "\<exists>strips. get_border_strips (correct_partition lambda) (to_int rho_0) = Some (Inr strips)
       \<and> (\<forall>p\<in>set strips.
             1 \<le> rho_0 \<and> 1 \<le> to_int rho_0
             \<and> int (sum_list (correct_partition (sub_partition p)))
                 = int (sum_list (correct_partition lambda)) - to_int rho_0
             \<and> sum_list (correct_partition (sub_partition p))
                 < sum_list (correct_partition lambda))"
    using g by blast
qed

theorem char_value_terminates_witness:
  "char_value CharTable_init [2, 1] [1, 1, 1] \<noteq> None
   \<and> get_border_strips [2, 1] 1
       = Some (Inr [\<lparr>sub_partition = [1, 1], border_strip = [1, 0]\<rparr>,
                    \<lparr>sub_partition = [2, 0], border_strip = [0, 1]\<rparr>])
   \<and> sum_list (correct_partition [2, 0]) < sum_list (correct_partition [2, 1])"
proof -
  have ad: "admissible [2, 1]"
    by (simp add: admissible_def is_partition_def positive_parts_def non_increasing_def
        fits_int_def correct_partition_def)
  note t = char_value_terminates[OF ad, of CharTable_init "[1, 1, 1]"]
  have c: "correct_partition [1, 1, 1] = 1 # [1, 1]" by (simp add: correct_partition_def)
  have l: "correct_partition [2, 1] = [2, 1]" by (simp add: correct_partition_def)
  have i: "to_int 1 = 1" by (simp add: to_int_def)
  have g: "get_border_strips [2, 1] 1
       = Some (Inr [\<lparr>sub_partition = [1, 1], border_strip = [1, 0]\<rparr>,
                    \<lparr>sub_partition = [2, 0], border_strip = [0, 1]\<rparr>])"
    by (simp add: gbs_eval)
  from t[THEN conjunct2, rule_format, OF c] obtain strips where
    s: "get_border_strips (correct_partition [2, 1]) (to_int 1) = Some (Inr strips)"
    and d: "\<forall>p\<in>set strips. 1 \<le> (1::nat) \<and> 1 \<le> to_int 1
              \<and> int (sum_list (correct_partition (sub_partition p)))
                  = int (sum_list (correct_partition [2, 1])) - to_int 1
              \<and> sum_list (correct_partition (sub_partition p)) < sum_list (correct_partition [2, 1])"
    by blast
  have "strips = [\<lparr>sub_partition = [1, 1], border_strip = [1, 0]\<rparr>,
                  \<lparr>sub_partition = [2, 0], border_strip = [0, 1]\<rparr>]"
    using s g unfolding l i by simp
  then have "\<lparr>sub_partition = [2, 0], border_strip = [0, 1]\<rparr> \<in> set strips" by simp
  from d[rule_format, OF this]
  have "sum_list (correct_partition [2, 0]) < sum_list (correct_partition [2, 1])" by simp
  then show ?thesis using t[THEN conjunct1] g by simp
qed

subsection \<open>No read out of bounds when rho is not smaller\<close>



section \<open>The sign character\<close>

subsection \<open>The border strips of the all-ones partition\<close>

text \<open>
  For \<open>lambda = [1, ..., 1]\<close> with \<open>k \<ge> 2\<close> rows and \<open>1 \<le> m \<le> k\<close> the first pass takes the
  down step through all rows, gives back the first \<open>k - m\<close> cells, and emits the one border
  strip there is: the last \<open>m\<close> rows.  The next pass stands in the last row, which is empty,
  and returns.
\<close>

lemma down_run_ones:
  assumes "k < 2 ^ 31" and "0 < k"
  shows "down_run (replicate k 1) 0 0 (replicate k 0) bs = (replicate k 1, k, bs - int k)"
proof -
  obtain xi' row' bs' where dr: "down_run (replicate k 1) 0 0 (replicate k 0) bs = (xi', row', bs')"
    by (cases "down_run (replicate k 1) 0 0 (replicate k 0) bs") auto
  have a1: "length (replicate k (0::nat)) = length (replicate k (1::nat))" by simp
  have a2: "\<forall>i<length (replicate k (1::nat)). 0 \<le> i \<longrightarrow> replicate k (0::nat) ! i + 1 < 2 ^ 64"
    by simp
  note spec = down_run_spec[OF a1 a2, where p = 0 and bs = bs, unfolded dr prod.case]
  have r1: "row' \<le> k" using spec[THEN conjunct1] by simp
  have "row' < k \<longrightarrow> replicate k (1::nat) ! row' \<noteq> replicate k 1 ! 0"
    using spec[THEN conjunct2, THEN conjunct2, THEN conjunct1] by simp
  then have r: "row' = k" using r1 assms(2) by (cases "row' < k") simp_all
  have l: "length xi' = k" using spec[THEN conjunct2, THEN conjunct2, THEN conjunct2, THEN conjunct1] by simp
  have n: "\<forall>i<k. xi' ! i = 1"
    using spec[THEN conjunct2, THEN conjunct2, THEN conjunct2, THEN conjunct2, THEN conjunct1] r
    by simp
  have x: "xi' = replicate k 1" using l n by (intro nth_equalityI) simp_all
  have b: "bs' = bs - int k"
    using spec[THEN conjunct2, THEN conjunct2, THEN conjunct2, THEN conjunct2, THEN conjunct2,
        THEN conjunct1] r by simp
  show ?thesis unfolding dr using x r b by simp
qed

lemma dec_rows_ones: "dec_rows (replicate k 1) 0 k = replicate k 0"
proof -
  note spec = dec_rows_spec[of k "replicate k 1" 0]
  have l: "length (dec_rows (replicate k 1) 0 k) = k" using spec by simp
  have "\<forall>i<k. dec_rows (replicate k 1) 0 k ! i = 0"
    using spec by (simp add: usub_def)
  then show ?thesis using l by (intro nth_equalityI) simp_all
qed

lemma refund_ones:
  "j + d \<le> k \<Longrightarrow>
   refund (replicate j 1 @ replicate (k - j) 0) (replicate j 0 @ replicate (k - j) 1) j (- int d)
     = Inr (replicate (j + d) 1 @ replicate (k - (j + d)) 0,
            replicate (j + d) 0 @ replicate (k - (j + d)) 1, j + d, 0)"
proof (induction d arbitrary: j)
  case 0
  show ?case by (subst refund.simps) simp
next
  case (Suc d)
  have j: "j < k" using Suc.prems by simp
  have u1: "(replicate j (1::nat) @ replicate (k - j) 0)
              [j := uadd ((replicate j 1 @ replicate (k - j) 0) ! j)
                         ((replicate j 0 @ replicate (k - j) 1) ! j)]
            = replicate (Suc j) 1 @ replicate (k - Suc j) 0"
    using j by (intro nth_equalityI) (auto simp: nth_append nth_list_update uadd_def simp del: replicate_Suc)
  have u2: "(replicate j (0::nat) @ replicate (k - j) 1)[j := 0]
            = replicate (Suc j) 0 @ replicate (k - Suc j) 1"
    using j by (intro nth_equalityI) (auto simp: nth_append nth_list_update simp del: replicate_Suc)
  have t: "to_int ((replicate j (0::nat) @ replicate (k - j) 1) ! j) = 1"
    using j by (simp add: nth_append to_int_def)
  have "refund (replicate j 1 @ replicate (k - j) 0) (replicate j 0 @ replicate (k - j) 1) j (- int (Suc d))
        = refund (replicate (Suc j) 1 @ replicate (k - Suc j) 0)
                 (replicate (Suc j) 0 @ replicate (k - Suc j) 1) (Suc j) (- int d)"
    using j by (subst refund.simps) (simp only: u1 u2 t, simp)
  also have "\<dots> = Inr (replicate (Suc j + d) 1 @ replicate (k - (Suc j + d)) 0,
            replicate (Suc j + d) 0 @ replicate (k - (Suc j + d)) 1, Suc j + d, 0)"
    using Suc.IH[of "Suc j"] Suc.prems by simp
  finally show ?case by simp
qed

lemma get_border_strips_ones:
  assumes k: "2 \<le> k" "k < 2 ^ 31" and m: "1 \<le> m" "m \<le> k"
  shows "get_border_strips (replicate k 1) (int m)
         = Some (Inr [\<lparr>sub_partition = replicate (k - m) 1 @ replicate m 0,
                       border_strip = replicate (k - m) 0 @ replicate m 1\<rparr>])"
proof -
  define lam2 where "lam2 = replicate (k - m) (1::nat) @ replicate m 0"
  define xi2 where "xi2 = replicate (k - m) (0::nat) @ replicate m 1"
  define pair where "pair = \<lparr>sub_partition = lam2, border_strip = xi2\<rparr>"
  define lam3 where "lam3 = lam2[k - m := uadd (lam2 ! (k - m)) (xi2 ! (k - m))]"
  define xi3 where "xi3 = xi2[k - m := 0]"
  have rf: "refund (replicate k 0) (replicate k 1) 0 (int m - int k) = Inr (lam2, xi2, k - m, 0)"
    using refund_ones[of 0 "k - m" k] m by (simp add: lam2_def xi2_def)
  have x2: "to_int (xi2 ! (k - m)) = 1"
    using m by (simp add: xi2_def nth_append to_int_def)
  have b1: "gbs_body (replicate k 1) (replicate k 0) 0 0 (int m) []
            = Next lam3 xi3 (if k - 1 = k - m then k else k - 1)
                (if k - 1 = k - m then k - m + 1 else k - m) 1 [pair]"
    using k m
    by (simp add: gbs_body_def down_run_ones[unfolded One_nat_def]
        dec_rows_ones[unfolded One_nat_def] rf[unfolded lam2_def xi2_def One_nat_def] emit_def
        x2[unfolded xi2_def One_nat_def] lam3_def xi3_def pair_def lam2_def xi2_def)
      arith
  have l3: "length lam3 = k" using m by (simp add: lam3_def lam2_def)
  have "get_border_strips (replicate k 1) (int m)
        = gbs_loop lam3 xi3 (if k - 1 = k - m then k else k - 1)
                (if k - 1 = k - m then k - m + 1 else k - m) 1 [pair]"
    unfolding get_border_strips_def using k m
    by (subst gbs_loop.simps) (simp add: b1[unfolded One_nat_def])
  also have "\<dots> = Some (Inr [pair])"
  proof (cases "m = 1")
    case True
    then show ?thesis using k by (simp add: gbs_loop_exit l3)
  next
    case False
    then have ne: "k - 1 \<noteq> k - m" using m k by simp
    have i: "\<not> k - 1 < k - m" "k - 1 - (k - m) < m" using m k False by simp_all
    have "lam3 ! (k - 1) = lam2 ! (k - 1)" using ne by (simp add: lam3_def)
    also have "\<dots> = replicate m 0 ! (k - 1 - (k - m))"
      using i(1) by (simp add: lam2_def nth_append)
    also have "\<dots> = 0" using i(2) by simp
    finally have z: "lam3 ! (k - 1) = 0" .
    have b2: "gbs_body lam3 xi3 (k - 1) (k - m) 1 [pair] = Stop (Inr [pair])"
      using k by (simp add: gbs_body_def l3 z[unfolded One_nat_def] to_int_def Let_def)
    show ?thesis using ne k
      by (subst gbs_loop.simps) (simp add: b2[unfolded One_nat_def] l3)
  qed
  finally show ?thesis by (simp add: pair_def lam2_def xi2_def)
qed

subsection \<open>The cache holds signs\<close>

lemma correct_partition_ones [simp]: "correct_partition (replicate k (Suc 0)) = replicate k (Suc 0)"
  by (induction k) (simp_all add: correct_partition_def)

lemma sum_list_ones [simp]: "sum_list (replicate k (Suc 0)) = k"
  by (induction k) simp_all

lemma correct_partition_zeros [simp]: "correct_partition (replicate k 0) = []"
  by (induction k) (simp_all add: correct_partition_def)

lemma correct_partition_append [simp]:
  "correct_partition (a @ b) = correct_partition a @ correct_partition b"
  by (simp add: correct_partition_def)

lemma correct_partition_positive: "positive_parts (correct_partition r)"
  by (simp add: positive_parts_def correct_partition_def)

lemma correct_partition_id: "positive_parts r \<Longrightarrow> correct_partition r = r"
  by (induction r) (simp_all add: positive_parts_def correct_partition_def)

lemma sign_of_Nil [simp]: "sign_of [] = 1"
  by (simp add: sign_of_def)

lemma sign_of_Cons [simp]: "sign_of (r # rt) = (- 1) ^ (r - 1) * sign_of rt"
  by (simp add: sign_of_def)

lemma MinusOnePow_power: "MinusOnePow p = (- 1) ^ p"
  by (simp add: MinusOnePow_def minus_one_power_iff even_iff_mod_2_eq_zero)

lemma sign_of_small:
  assumes "positive_parts r" and "sum_list r < 2"
  shows "sign_of r = 1"
proof (cases r)
  case Nil
  then show ?thesis by simp
next
  case (Cons x xs)
  have x: "0 < x" using assms(1) Cons by (simp add: positive_parts_def)
  have s: "x + sum_list xs < 2" using assms(2) Cons by simp
  have x1: "x = 1" using x s by arith
  have z: "sum_list xs = 0" using x s by arith
  have "xs = []"
  proof (cases xs)
    case (Cons y ys)
    then have "0 < y" using assms(1) \<open>r = x # xs\<close> by (simp add: positive_parts_def)
    moreover have "y \<le> sum_list xs" using Cons by simp
    ultimately show ?thesis using z by arith
  qed simp
  then show ?thesis using Cons x1 by simp
qed

lemma sign_cached_touch [simp]: "sign_cached (touch s l) = sign_cached s"
  by (simp add: sign_cached_def)

lemma sign_cached_store:
  assumes "sign_cached s" and "sign_value l0 r0 v"
  shows "sign_cached (store s (correct_partition l0) (correct_partition r0) v)"
  unfolding sign_cached_def
proof (intro allI impI)
  fix lambda rho x
  assume f: "find_value (store s (correct_partition l0) (correct_partition r0) v)
               (correct_partition lambda) (correct_partition rho) = Some x"
  show "sign_value lambda rho x"
  proof (cases "correct_partition lambda = correct_partition l0
                \<and> correct_partition rho = correct_partition r0")
    case True
    with f have "x = v" by simp
    then show ?thesis using assms(2) True by (simp add: sign_value_def)
  next
    case False
    with f have "find_value s (correct_partition lambda) (correct_partition rho) = Some x"
      by (simp split: if_splits)
    then show ?thesis using assms(1) unfolding sign_cached_def by blast
  qed
qed

lemma sign_value_base:
  assumes "Sum_vec (correct_partition l0) < 2"
  shows "sign_value l0 r0 1"
  unfolding sign_value_def
proof
  assume a: "sum_list (correct_partition r0) < 2 ^ 31
      \<and> correct_partition l0 = replicate (sum_list (correct_partition r0)) 1"
  have "Sum_vec (correct_partition l0) = sum_list (correct_partition r0)"
    using a by (simp add: Sum_vec_sum_list)
  then have "sum_list (correct_partition r0) < 2" using assms by simp
  then show "1 = sign_of (correct_partition r0)"
    using sign_of_small[OF correct_partition_positive] by simp
qed

lemma sign_value_miss:
  assumes big: "\<not> Sum_vec (correct_partition l0) < 2"
    and c: "correct_partition r0 = r # rt"
    and g: "get_border_strips (correct_partition l0) (to_int r) = Some (Inr strips)"
    and q: "\<forall>p. strips = [p] \<and> sum_list (correct_partition rt) < 2 ^ 31
              \<and> correct_partition (sub_partition p) = replicate (sum_list (correct_partition rt)) 1
              \<longrightarrow> v = 0 + MinusOnePow (usub (length (correct_partition (border_strip p))) 1)
                            * sign_of (correct_partition rt)"
  shows "sign_value l0 r0 v"
  unfolding sign_value_def
proof
  assume a: "sum_list (correct_partition r0) < 2 ^ 31
      \<and> correct_partition l0 = replicate (sum_list (correct_partition r0)) 1"
  define k where "k = sum_list (correct_partition r0)"
  have k31: "k < 2 ^ 31" and l: "correct_partition l0 = replicate k 1" using a by (simp_all add: k_def)
  have "Sum_vec (correct_partition l0) = k" using l k31 by (simp add: Sum_vec_sum_list)
  then have k2: "2 \<le> k" using big by simp
  have pos: "0 < r" and tl: "correct_partition rt = rt"
    using correct_partition_Cons[OF c] by simp_all
  have ks: "k = r + sum_list rt" using c by (simp add: k_def)
  have r31: "r < 2 ^ 31" using ks k31 by simp
  have ti: "to_int r = int r" using r31 by (rule to_int_small)
  define pair where "pair = \<lparr>sub_partition = replicate (k - r) 1 @ replicate r 0,
                       border_strip = replicate (k - r) 0 @ replicate r 1\<rparr>"
  have "get_border_strips (replicate k 1) (int r) = Some (Inr [pair])"
    unfolding pair_def using get_border_strips_ones[OF k2 k31, of r] pos ks by simp
  then have s: "strips = [pair]" using g l ti by simp
  have c1: "correct_partition (sub_partition pair) = replicate (sum_list (correct_partition rt)) 1"
    using ks tl by (simp add: pair_def)
  have c2: "length (correct_partition (border_strip pair)) = r"
    by (simp add: pair_def)
  have "sum_list (correct_partition rt) < 2 ^ 31" using ks k31 tl by simp
  then have "v = 0 + MinusOnePow (usub (length (correct_partition (border_strip pair))) 1)
                            * sign_of (correct_partition rt)"
    using q[rule_format, of pair] s c1 by simp
  moreover have "usub r 1 = r - 1" using pos r31 by (simp add: usub_exact)
  ultimately have "v = (- 1) ^ (r - 1) * sign_of rt"
    using c2 tl by (simp add: MinusOnePow_power)
  then show "v = sign_of (correct_partition r0)" using c by simp
qed

lemma sign_loop_Cons:
  assumes "sign_value (correct_partition (sub_partition p)) rt v1"
    and "sign_loop rest rt (acc + MinusOnePow (usub (length (correct_partition (border_strip p))) 1) * v1) v"
  shows "sign_loop (p # rest) rt acc v"
  unfolding sign_loop_def
proof (intro conjI allI impI)
  show "p # rest = [] \<Longrightarrow> v = acc" by simp
next
  fix p'
  assume a: "p # rest = [p'] \<and> sum_list (correct_partition rt) < 2 ^ 31
      \<and> correct_partition (sub_partition p') = replicate (sum_list (correct_partition rt)) 1"
  then have e: "p' = p" "rest = []" by simp_all
  have "v1 = sign_of (correct_partition rt)"
    using assms(1) a e unfolding sign_value_def by simp
  moreover have "v = acc + MinusOnePow (usub (length (correct_partition (border_strip p))) 1) * v1"
    using assms(2) e unfolding sign_loop_def by simp
  ultimately show "v = acc + MinusOnePow (usub (length (correct_partition (border_strip p'))) 1)
                            * sign_of (correct_partition rt)"
    using e by simp
qed

lemma char_value_sign_aux:
  "\<forall>v s'. char_value s l0 r0 = Some (Inr (v, s')) \<longrightarrow>
     sign_cached s \<longrightarrow> sign_cached s' \<and> sign_value l0 r0 v"
proof (rule char_value_run_induct(1)
    [where P = "\<lambda>s l0 r0 v s'. sign_cached s \<longrightarrow> sign_cached s' \<and> sign_value l0 r0 v"
       and Q = "\<lambda>s strips rt acc v s'. sign_cached s \<longrightarrow> sign_cached s' \<and> sign_loop strips rt acc v"],
    goal_cases)
  case (1 s l0 r0)
  then show ?case by (simp add: sign_value_base)
next
  case (2 s l0 r0 v)
  then show ?case unfolding sign_cached_def by blast
next
  case (3 s l0 r0 r rt strips v s2)
  show ?case
  proof
    assume a: "sign_cached s"
    with 3(6) have s2: "sign_cached s2" and q: "sign_loop strips rt 0 v" by simp_all
    have sv: "sign_value l0 r0 v"
      by (rule sign_value_miss[OF 3(1) 3(3) 3(4)]) (use q in \<open>simp add: sign_loop_def\<close>)
    show "sign_cached (store s2 (correct_partition l0) (correct_partition r0) v) \<and> sign_value l0 r0 v"
      using sign_cached_store[OF s2 sv] sv by simp
  qed
next
  case (4 s rt acc)
  show ?case by (simp add: sign_loop_def)
next
  case (5 s p rest rt acc v1 s1 v s')
  show ?case
  proof
    assume a: "sign_cached s"
    with 5(2) have s1: "sign_cached s1" and sv: "sign_value (correct_partition (sub_partition p)) rt v1"
      by simp_all
    with 5(4) have s': "sign_cached s'"
      and sl: "sign_loop rest rt (acc + MinusOnePow (usub (length (correct_partition (border_strip p))) 1) * v1) v"
      by simp_all
    show "sign_cached s' \<and> sign_loop (p # rest) rt acc v"
      using s' sign_loop_Cons[OF sv sl] by simp
  qed
qed

lemma char_value_sign_cached:
  "sign_cached s \<Longrightarrow> char_value s l0 r0 = Some (Inr (v, s')) \<Longrightarrow> sign_cached s'"
  using char_value_sign_aux by simp

lemma calculate_partitions_sign_cached:
  "sign_cached s \<Longrightarrow> calculate_partitions s n = Inr (ps, s') \<Longrightarrow> sign_cached s'"
  by (auto simp: calculate_partitions_def Let_def sign_cached_def find_value_def split: if_splits)

lemma sign_cached_init: "sign_cached CharTable_init"
  by (simp add: sign_cached_def find_value_def CharTable_init_def)

lemma non_increasing_replicate: "non_increasing (replicate n x)"
  by (simp add: non_increasing_def sorted_wrt_iff_nth_less)

lemma admissible_ones: "n < 2 ^ 31 \<Longrightarrow> admissible (replicate n 1)"
  by (simp add: admissible_def is_partition_def positive_parts_def non_increasing_replicate
      fits_int_def)

text \<open>
  C6, amended.  Let \<open>n < 2 ^ 31\<close> and \<open>rho\<close> a partition of \<open>n\<close>.  In every state reachable
  from the fresh \<open>CharTable\<close>, \<open>char_value\<close> on the all-ones partition of \<open>n\<close> and \<open>rho\<close>
  returns the sign of \<open>rho\<close>.  Every sum the computation forms is \<open>0 + s * s'\<close> with \<open>s\<close> and
  \<open>s'\<close> in \<open>{1, -1}\<close>, well inside the range of \<^verbatim>\<open>int\<close>.
\<close>

theorem sign_character:
  assumes "reachable self" and "n < 2 ^ 31" and "is_partition rho" and "sum_list rho = n"
  shows "\<exists>self'. char_value self (replicate n 1) rho = Some (Inr (sign_of rho, self'))"
proof -
  have inv: "sign_cached self"
    by (rule reachable_invariant[where I = sign_cached,
          OF sign_cached_init char_value_sign_cached calculate_partitions_sign_cached assms(1)])
  have cr: "correct_partition rho = rho"
    using assms(3) by (simp add: is_partition_def correct_partition_id)
  have "fits_int rho"
    unfolding fits_int_def
  proof
    fix item assume "item \<in> set rho"
    then have "item \<le> sum_list rho" by (simp add: member_le_sum_list)
    then show "item < 2 ^ 31" using assms(2,4) by simp
  qed
  then obtain v s' where c: "char_value self (replicate n 1) rho = Some (Inr (v, s'))"
    using char_value_result_aux(1)[of "replicate n 1" rho self] admissible_ones[OF assms(2)]
      assms(4) cr by auto
  have "sign_value (replicate n 1) rho v"
    using char_value_sign_aux[rule_format, OF c inv] by simp
  then have "v = sign_of rho" using assms(2,4) cr by (simp add: sign_value_def)
  then show ?thesis using c by simp
qed

theorem sign_character_witness:
  "\<exists>self'. char_value CharTable_init [1, 1, 1] [2, 1] = Some (Inr (- 1, self'))"
proof -
  have "is_partition [2, 1]" by (simp add: is_partition_def positive_parts_def non_increasing_def)
  from sign_character[OF reachable.fresh _ this, of 3] show ?thesis
    by (simp add: sign_of_def numeral_3_eq_3)
qed

lemma char_value_ones_huge:
  assumes "2 ^ 31 \<le> n" and "n < 2 ^ 32"
  shows "map_option (map_sum id fst) (char_value CharTable_init (replicate n 1) [n]) = Some (Inr 0)"
proof -
  have s: "\<not> Sum_vec (correct_partition (replicate n 1)) < 2"
    using assms by (simp add: Sum_vec_sum_list)
  have f: "find_value CharTable_init (correct_partition (replicate n 1)) (correct_partition [n]) = None"
    by (simp add: find_value_def CharTable_init_def)
  have c: "correct_partition [n] = [n]" using assms by (simp add: correct_partition_def)
  have "to_int n \<le> 0" using assms by (simp add: to_int_def)
  then have g: "get_border_strips (replicate n (Suc 0)) (to_int n) = Some (Inr [])"
    by (rule get_border_strips_nonpositive)
  show ?thesis
    unfolding char_value_miss[OF s f] c by (simp add: g char_value_loop_Nil)
qed

text \<open>
  C6, as stated, fails without the bound on \<open>n\<close>.  For \<open>n = 2 ^ 31\<close> and \<open>rho = [n]\<close>, a
  single cycle, \<^verbatim>\<open>static_cast<int>(rho[0])\<close> is \<open>- (2 ^ 31)\<close>, so \<open>get_border_strips\<close> does
  not enter its loop and returns no strip, and \<open>char_value\<close> returns 0, where the sign is
  \<open>-1\<close>.
\<close>

theorem single_cycle_of_2_31_gets_0:
  "is_partition [2 ^ 31] \<and> sum_list [2 ^ 31] = (2 ^ 31 :: nat) \<and> sign_of [2 ^ 31] = - 1
   \<and> map_option (map_sum id fst) (char_value CharTable_init (replicate (2 ^ 31) 1) [2 ^ 31])
       = Some (Inr 0)"
proof (intro conjI)
  show "is_partition [2 ^ 31]" by (simp add: is_partition_def positive_parts_def non_increasing_def)
  show "sum_list [2 ^ 31] = (2 ^ 31 :: nat)" by simp
  show "sign_of [2 ^ 31] = - 1" by (simp add: sign_of_def)
  show "map_option (map_sum id fst) (char_value CharTable_init (replicate (2 ^ 31) 1) [2 ^ 31]) = Some (Inr 0)"
    by (rule char_value_ones_huge) simp_all
qed

end
